theory Spec2Isabelle
  imports Main "HOL-Library.Multiset"
begin


section \<open>The graph store (graph/graph.go)\<close>

text \<open>
  Go's \<open>int\<close> is modelled as \<open>int\<close>; the one place where the program adds two
  machine integers (the relaxation of the distance matrix and the predecessor test) goes
  through \<open>add64\<close>, which wraps around as the 64-bit addition does. Indices into slices
  are \<open>nat\<close>. A slice is a list, read with \<open>!\<close>; the graphs that reach the functions
  below are built by \<open>NewFromStruct\<close> or \<open>CopyWithoutNode\<close>, whose adjacency matrix is
  square, so that every read is in range (predicate \<open>square_graph\<close>; outside it Go
  panics and the model says nothing).
\<close>

definition MinWeight :: int where "MinWeight = 1"
definition MaxWeight :: int where "MaxWeight = 1000"

record Edge =
  eFrom :: string
  eTo :: string
  eWeight :: int

record GraphJSON =
  jNodes :: "string list"
  jEdges :: "Edge list"

record Graph =
  Nodes :: "string list"
  NameToIndex :: "string \<rightharpoonup> nat"
  AdjMatrix :: "int list list"

datatype error = WeightOutOfRange string string int | NoNodes

text \<open>First loop of \<open>NewFromStruct\<close>: the first edge whose weight is out of range
  ends the function with an error. (The \<open>nodeSet\<close> filled by the same loop is used
  only as a capacity hint.)\<close>

fun check_weights :: "Edge list \<Rightarrow> error option" where
  "check_weights [] = None"
| "check_weights (e # es) =
     (if eWeight e < MinWeight \<or> eWeight e > MaxWeight
      then Some (WeightOutOfRange (eFrom e) (eTo e) (eWeight e))
      else check_weights es)"

text \<open>The two loops that fix the node order: a name not seen before is marked and
  appended.\<close>

definition add_node :: "string \<Rightarrow> (string \<Rightarrow> bool) \<times> string list \<Rightarrow> (string \<Rightarrow> bool) \<times> string list" where
  "add_node n st = (case st of (seen, nodes) \<Rightarrow>
     if \<not> seen n then (seen(n := True), nodes @ [n]) else (seen, nodes))"

definition collect_nodes :: "GraphJSON \<Rightarrow> string list" where
  "collect_nodes gj =
     snd (fold (\<lambda>e st. fold add_node [eFrom e, eTo e] st) (jEdges gj)
            (fold add_node (jNodes gj) (\<lambda>_. False, [])))"

definition build_index :: "string list \<Rightarrow> (string \<rightharpoonup> nat)" where
  "build_index nodes = fold (\<lambda>(i, n) m. m(n \<mapsto> i)) (enumerate 0 nodes) Map.empty"

text \<open>A Go map read of a missing key gives the zero value.\<close>

definition lookup_idx :: "(string \<rightharpoonup> nat) \<Rightarrow> string \<Rightarrow> nat" where
  "lookup_idx m n = (case m n of Some i \<Rightarrow> i | None \<Rightarrow> 0)"

definition set_cell :: "nat \<Rightarrow> nat \<Rightarrow> int \<Rightarrow> int list list \<Rightarrow> int list list" where
  "set_cell i j v mat = mat[i := (mat ! i)[j := v]]"

definition build_adj :: "(string \<rightharpoonup> nat) \<Rightarrow> nat \<Rightarrow> Edge list \<Rightarrow> int list list" where
  "build_adj nameToIndex N es =
     fold (\<lambda>e adj. set_cell (lookup_idx nameToIndex (eFrom e)) (lookup_idx nameToIndex (eTo e)) (eWeight e) adj)
       es (replicate N (replicate N 0))"

definition NewFromStruct :: "GraphJSON \<Rightarrow> error + Graph" where
  "NewFromStruct gj =
     (case check_weights (jEdges gj) of
        Some err \<Rightarrow> Inl err
      | None \<Rightarrow>
          let nodes = collect_nodes gj in
          if length nodes = 0 then Inl NoNodes
          else
            let nameToIndex = build_index nodes;
                N = length nodes;
                adj = build_adj nameToIndex N (jEdges gj)
            in Inr \<lparr>Nodes = nodes, NameToIndex = nameToIndex, AdjMatrix = adj\<rparr>)"

definition NumNodes :: "Graph \<Rightarrow> nat" where
  "NumNodes g = length (Nodes g)"

definition Name :: "Graph \<Rightarrow> nat \<Rightarrow> string" where
  "Name g i = Nodes g ! i"

definition Weight :: "Graph \<Rightarrow> nat \<Rightarrow> nat \<Rightarrow> int" where
  "Weight g i j = AdjMatrix g ! i ! j"

definition Neighbors :: "Graph \<Rightarrow> nat \<Rightarrow> nat list" where
  "Neighbors g i = filter (\<lambda>j. AdjMatrix g ! i ! j > 0) [0..<length (AdjMatrix g ! i)]"

text \<open>\<open>CopyWithoutNode\<close>: the first loop fills \<open>oldToNew\<close> (an \<open>int\<close> slice, with
  the sentinel \<open>-1\<close>) and \<open>newNodes\<close>; the second copies the cells of the retained
  rows and columns that are not zero into a fresh matrix of zeros.\<close>

definition renumber_step :: "Graph \<Rightarrow> nat \<Rightarrow> nat \<Rightarrow> int list \<times> string list \<Rightarrow> int list \<times> string list" where
  "renumber_step g excludeIdx i st = (case st of (oldToNew, newNodes) \<Rightarrow>
     if i = excludeIdx then (oldToNew[i := -1], newNodes)
     else (oldToNew[i := int (length newNodes)], newNodes @ [Nodes g ! i]))"

definition copy_cell :: "Graph \<Rightarrow> nat \<Rightarrow> int list \<Rightarrow> nat \<Rightarrow> nat \<Rightarrow> int list list \<Rightarrow> int list list" where
  "copy_cell g excludeIdx oldToNew i j adj =
     (if j = excludeIdx \<or> AdjMatrix g ! i ! j = 0 then adj
      else set_cell (nat (oldToNew ! i)) (nat (oldToNew ! j)) (AdjMatrix g ! i ! j) adj)"

definition copy_row :: "Graph \<Rightarrow> nat \<Rightarrow> int list \<Rightarrow> nat \<Rightarrow> int list list \<Rightarrow> int list list" where
  "copy_row g excludeIdx oldToNew i adj =
     (if i = excludeIdx then adj
      else fold (copy_cell g excludeIdx oldToNew i) [0..<NumNodes g] adj)"

definition CopyWithoutNode :: "Graph \<Rightarrow> nat \<Rightarrow> Graph \<times> int list" where
  "CopyWithoutNode g excludeIdx =
     (let oldN = NumNodes g;
          (oldToNew, newNodes) = fold (renumber_step g excludeIdx) [0..<oldN] (replicate oldN 0, []);
          N = length newNodes;
          adj = fold (copy_row g excludeIdx oldToNew) [0..<oldN] (replicate N (replicate N 0));
          nameToIndex = build_index newNodes
      in (\<lparr>Nodes = newNodes, NameToIndex = nameToIndex, AdjMatrix = adj\<rparr>, oldToNew))"

definition square_graph :: "Graph \<Rightarrow> bool" where
  "square_graph g \<longleftrightarrow>
     length (AdjMatrix g) = length (Nodes g) \<and>
     (\<forall>row \<in> set (AdjMatrix g). length row = length (Nodes g))"


section \<open>All-pairs shortest paths (package floyd)\<close>

text \<open>\<open>Inf\<close> is \<open>math.MaxInt\<close>, the largest 64-bit signed integer.\<close>

definition Inf_int :: int where "Inf_int = 9223372036854775807"

definition add64 :: "int \<Rightarrow> int \<Rightarrow> int" where
  "add64 a b = (a + b + 9223372036854775808) mod 18446744073709551616 - 9223372036854775808"

definition MaxShortestPaths :: nat where "MaxShortestPaths = 4"
definition MaxViaNeighborPaths :: nat where "MaxViaNeighborPaths = 3"

record PathDist =
  Path :: "string list"
  pdDistance :: int

record PairResult =
  From :: string
  To :: string
  Distance :: int
  Paths :: "string list list"
  ViaNeighborPaths :: "PathDist list"

record AllPairsResult =
  Results :: "PairResult list"
  r_g :: Graph
  r_dist :: "int list list"
  r_pred :: "nat list list list"

subsection \<open>The distance matrix\<close>

definition init_cell :: "Graph \<Rightarrow> nat \<Rightarrow> nat \<Rightarrow> int" where
  "init_cell g i j =
     (if i = j then 0
      else let w = Weight g i j in if w > 0 then w else Inf_int)"

definition init_dist :: "Graph \<Rightarrow> int list list" where
  "init_dist g = map (\<lambda>i. map (\<lambda>j. init_cell g i j) [0..<NumNodes g]) [0..<NumNodes g]"

text \<open>The body of the innermost loop, on the matrix that is updated in place.\<close>

definition relax :: "nat \<Rightarrow> nat \<Rightarrow> nat \<Rightarrow> int list list \<Rightarrow> int list list" where
  "relax k i j dist =
     (if dist ! k ! j = Inf_int then dist
      else let d = add64 (dist ! i ! k) (dist ! k ! j)
           in if d < dist ! i ! j then set_cell i j d dist else dist)"

definition relax_row :: "nat \<Rightarrow> nat \<Rightarrow> nat \<Rightarrow> int list list \<Rightarrow> int list list" where
  "relax_row N k i dist =
     (if dist ! i ! k = Inf_int then dist else fold (relax k i) [0..<N] dist)"

definition relax_mid :: "nat \<Rightarrow> nat \<Rightarrow> int list list \<Rightarrow> int list list" where
  "relax_mid N k dist = fold (relax_row N k) [0..<N] dist"

definition floyd_relax :: "nat \<Rightarrow> int list list \<Rightarrow> int list list" where
  "floyd_relax N dist = fold (relax_mid N) [0..<N] dist"

subsection \<open>Predecessor lists\<close>

definition is_pred :: "Graph \<Rightarrow> int list list \<Rightarrow> nat \<Rightarrow> nat \<Rightarrow> nat \<Rightarrow> bool" where
  "is_pred g dist i j m \<longleftrightarrow>
     m \<noteq> i \<and> (let w = Weight g m j
               in w > 0 \<and> dist ! i ! m \<noteq> Inf_int \<and> add64 (dist ! i ! m) w = dist ! i ! j)"

definition pred_cell :: "Graph \<Rightarrow> int list list \<Rightarrow> nat \<Rightarrow> nat \<Rightarrow> nat list" where
  "pred_cell g dist i j =
     (if i = j \<or> dist ! i ! j = Inf_int then []
      else filter (is_pred g dist i j) [0..<NumNodes g])"

definition build_pred :: "Graph \<Rightarrow> int list list \<Rightarrow> nat list list list" where
  "build_pred g dist =
     map (\<lambda>i. map (\<lambda>j. pred_cell g dist i j) [0..<NumNodes g]) [0..<NumNodes g]"

subsection \<open>Path enumeration\<close>

definition pathKey :: "string list \<Rightarrow> string" where
  "pathKey path = fold (\<lambda>p s. (if s \<noteq> [] then s @ ''|'' else s) @ p) path []"

type_synonym collector = "string list list \<times> (string \<Rightarrow> bool)"

text \<open>The shared accumulator of \<open>collectPaths\<close>: the output slice and the \<open>seen\<close>
  map. \<open>add_path\<close> is the block that appears twice in the source.\<close>

definition add_path :: "string list \<Rightarrow> collector \<Rightarrow> collector" where
  "add_path path st = (case st of (out, seen) \<Rightarrow>
     let key = pathKey path
     in if \<not> seen key then (out @ [path], seen(key := True)) else (out, seen))"

text \<open>\<open>collectPaths\<close> recurses through the predecessor lists and nothing in its text
  bounds the depth, so it is a partial function: \<open>None\<close> is a run that never returns.
  \<open>Call i j suffix\<close> is the body of the function, \<open>Loop i suffix ms\<close> the rest of its
  \<open>range\<close> loop over the predecessors still to visit.\<close>

datatype task = Call nat nat "string list" | Loop nat "string list" "nat list"

partial_function (option) collect ::
  "Graph \<Rightarrow> int list list \<Rightarrow> nat list list list \<Rightarrow> nat \<Rightarrow> task \<Rightarrow> collector \<Rightarrow> collector option" where
  "collect g dist pred maxPaths t st =
     (case t of
        Call i j suffix \<Rightarrow>
          if length (fst st) \<ge> maxPaths then Some st
          else if i = j then Some (add_path (Name g i # suffix) st)
          else collect g dist pred maxPaths (Loop i suffix (pred ! i ! j))
                 (if Weight g i j > 0 \<and> Weight g i j = dist ! i ! j
                  then add_path (Name g i # suffix) st else st)
      | Loop i suffix ms \<Rightarrow>
          (case ms of
             [] \<Rightarrow> Some st
           | m # rest \<Rightarrow>
               Option.bind (collect g dist pred maxPaths (Call i m (Name g m # suffix)) st)
                 (\<lambda>st'. collect g dist pred maxPaths (Loop i suffix rest) st')))"

declare collect.simps [code]

definition collectPaths ::
  "Graph \<Rightarrow> int list list \<Rightarrow> nat list list list \<Rightarrow> nat \<Rightarrow> nat \<Rightarrow> string list \<Rightarrow> collector \<Rightarrow> nat \<Rightarrow> collector option" where
  "collectPaths g dist pred i j suffix st maxPaths = collect g dist pred maxPaths (Call i j suffix) st"

definition enumeratePaths ::
  "Graph \<Rightarrow> int list list \<Rightarrow> nat list list list \<Rightarrow> nat \<Rightarrow> nat \<Rightarrow> nat \<Rightarrow> string list list option" where
  "enumeratePaths g dist pred i j maxPaths =
     (if i = j then Some [[Name g i]]
      else if dist ! i ! j = Inf_int then Some []
      else map_option fst (collectPaths g dist pred i j [Name g j] ([], \<lambda>_. False) maxPaths))"

definition pair_result ::
  "Graph \<Rightarrow> int list list \<Rightarrow> nat list list list \<Rightarrow> nat \<Rightarrow> nat \<Rightarrow> PairResult option" where
  "pair_result g dist pred i j =
     (if dist ! i ! j = Inf_int
      then Some \<lparr>From = Name g i, To = Name g j, Distance = -1, Paths = [], ViaNeighborPaths = []\<rparr>
      else map_option
             (\<lambda>ps. \<lparr>From = Name g i, To = Name g j, Distance = dist ! i ! j, Paths = ps, ViaNeighborPaths = []\<rparr>)
             (enumeratePaths g dist pred i j MaxShortestPaths))"

definition all_pairs :: "nat \<Rightarrow> (nat \<times> nat) list" where
  "all_pairs N = concat (map (\<lambda>i. map (\<lambda>j. (i, j)) [0..<N]) [0..<N])"

definition RunFloyd :: "Graph \<Rightarrow> AllPairsResult option" where
  "RunFloyd g =
     (let N = NumNodes g;
          dist = floyd_relax N (init_dist g);
          pred = build_pred g dist
      in map_option (\<lambda>results. \<lparr>Results = results, r_g = g, r_dist = dist, r_pred = pred\<rparr>)
           (those (map (\<lambda>(i, j). pair_result g dist pred i j) (all_pairs N))))"

subsection \<open>Via-neighbor paths\<close>

definition runFloydOnSubgraph :: "Graph \<Rightarrow> int list list \<times> nat list list list" where
  "runFloydOnSubgraph g =
     (let dist = floyd_relax (NumNodes g) (init_dist g) in (dist, build_pred g dist))"

definition enumeratePathsOnSub ::
  "Graph \<Rightarrow> int list list \<Rightarrow> nat list list list \<Rightarrow> nat \<Rightarrow> nat \<Rightarrow> nat \<Rightarrow> string list list option" where
  "enumeratePathsOnSub g dist pred i j maxPaths =
     (if i = j then Some [[Name g i]]
      else if dist ! i ! j = Inf_int then Some []
      else map_option fst (collectPaths g dist pred i j [Name g j] ([], \<lambda>_. False) maxPaths))"

text \<open>The exchange sort of \<open>dedupPathsByKey\<close>, on the slice it sorts in place.\<close>

definition swap_if_less :: "nat \<Rightarrow> nat \<Rightarrow> PathDist list \<Rightarrow> PathDist list" where
  "swap_if_less i j cs =
     (if pdDistance (cs ! j) < pdDistance (cs ! i) then cs[i := cs ! j, j := cs ! i] else cs)"

definition sort_pass :: "nat \<Rightarrow> PathDist list \<Rightarrow> PathDist list" where
  "sort_pass i cs = fold (swap_if_less i) [i + 1..<length cs] cs"

definition sort_by_distance :: "PathDist list \<Rightarrow> PathDist list" where
  "sort_by_distance cs = fold sort_pass [0..<length cs] cs"

fun dedup_loop :: "nat \<Rightarrow> PathDist list \<Rightarrow> PathDist list \<times> (string \<Rightarrow> bool) \<Rightarrow> PathDist list \<times> (string \<Rightarrow> bool)" where
  "dedup_loop mx [] st = st"
| "dedup_loop mx (c # cs) (result, seen) =
     (if length result \<ge> mx then (result, seen)
      else let key = pathKey (Path c)
           in if seen key then dedup_loop mx cs (result, seen)
              else dedup_loop mx cs (result @ [c], seen(key := True)))"

definition dedupPathsByKey :: "PathDist list \<Rightarrow> nat \<Rightarrow> PathDist list" where
  "dedupPathsByKey candidates mx =
     (if length candidates = 0 then []
      else fst (dedup_loop mx (sort_by_distance candidates) ([], \<lambda>_. False)))"

text \<open>The candidates one out-neighbor \<open>nb\<close> contributes for one destination.\<close>

definition nb_candidates ::
  "Graph \<Rightarrow> Graph \<Rightarrow> int list list \<Rightarrow> nat list list list \<Rightarrow> int list \<Rightarrow> nat \<Rightarrow> nat \<Rightarrow> nat \<Rightarrow> PathDist list option" where
  "nb_candidates g sub subDist subPred oldToNew fromIdx newTo nb =
     (let wSN = Weight g fromIdx nb;
          newNb = oldToNew ! nb
      in if newNb < 0 then Some []
         else if subDist ! nat newNb ! newTo = Inf_int then Some []
         else let d = add64 wSN (subDist ! nat newNb ! newTo)
              in map_option (map (\<lambda>p. \<lparr>Path = Name g fromIdx # p, pdDistance = d\<rparr>))
                   (enumeratePathsOnSub sub subDist subPred (nat newNb) newTo MaxViaNeighborPaths))"

text \<open>The write-back loop: the first entry with the two names gets the list.\<close>

fun set_via :: "string \<Rightarrow> string \<Rightarrow> PathDist list \<Rightarrow> PairResult list \<Rightarrow> PairResult list" where
  "set_via fromName toName dedup [] = []"
| "set_via fromName toName dedup (r # rs) =
     (if From r = fromName \<and> To r = toName then r\<lparr>ViaNeighborPaths := dedup\<rparr> # rs
      else r # set_via fromName toName dedup rs)"

text \<open>The slice \<open>candidates\<close> after the loop over the out-neighbors: their candidates,
  appended in the order of the neighbors.\<close>

definition pool_candidates ::
  "Graph \<Rightarrow> Graph \<Rightarrow> int list list \<Rightarrow> nat list list list \<Rightarrow> int list \<Rightarrow> nat list \<Rightarrow> nat \<Rightarrow> nat \<Rightarrow> PathDist list option" where
  "pool_candidates g sub subDist subPred oldToNew neighbors fromIdx newTo =
     map_option concat
       (those (map (nb_candidates g sub subDist subPred oldToNew fromIdx newTo) neighbors))"

definition via_to ::
  "Graph \<Rightarrow> Graph \<Rightarrow> int list list \<Rightarrow> nat list list list \<Rightarrow> int list \<Rightarrow> nat list \<Rightarrow> nat \<Rightarrow> nat \<Rightarrow> PairResult list \<Rightarrow> PairResult list option" where
  "via_to g sub subDist subPred oldToNew neighbors fromIdx toIdx results =
     (if toIdx = fromIdx then Some results
      else let newTo = oldToNew ! toIdx
           in if newTo < 0 then Some results
              else map_option
                     (\<lambda>candidates. set_via (Name g fromIdx) (Name g toIdx)
                                (dedupPathsByKey candidates MaxViaNeighborPaths) results)
                     (pool_candidates g sub subDist subPred oldToNew neighbors fromIdx (nat newTo)))"

fun fold_option :: "('a \<Rightarrow> 's \<Rightarrow> 's option) \<Rightarrow> 'a list \<Rightarrow> 's \<Rightarrow> 's option" where
  "fold_option f [] s = Some s"
| "fold_option f (x # xs) s = (case f x s of None \<Rightarrow> None | Some s' \<Rightarrow> fold_option f xs s')"

definition via_from :: "Graph \<Rightarrow> nat \<Rightarrow> PairResult list \<Rightarrow> PairResult list option" where
  "via_from g fromIdx results =
     (let neighbors = Neighbors g fromIdx
      in if length neighbors = 0 then Some results
         else let (sub, oldToNew) = CopyWithoutNode g fromIdx;
                  (subDist, subPred) = runFloydOnSubgraph sub
              in fold_option (via_to g sub subDist subPred oldToNew neighbors fromIdx)
                   [0..<NumNodes g] results)"

definition FillViaNeighborPaths :: "AllPairsResult \<Rightarrow> AllPairsResult option" where
  "FillViaNeighborPaths r =
     map_option (\<lambda>results. r\<lparr>Results := results\<rparr>)
       (fold_option (via_from (r_g r)) [0..<NumNodes (r_g r)] (Results r))"

text \<open>\<open>findResult\<close> of the test file: the first entry for a pair of names.\<close>

fun findResult :: "PairResult list \<Rightarrow> string \<Rightarrow> string \<Rightarrow> PairResult option" where
  "findResult [] from to = None"
| "findResult (r # rs) from to =
     (if From r = from \<and> To r = to then Some r else findResult rs from to)"


section \<open>Auxiliary notions for the statements and proofs\<close>

definition node_inv :: "(string \<Rightarrow> bool) \<times> string list \<Rightarrow> bool" where
  "node_inv st \<longleftrightarrow> (\<forall>n. fst st n \<longleftrightarrow> n \<in> set (snd st)) \<and> distinct (snd st)"

definition endpoints :: "Edge list \<Rightarrow> string set" where
  "endpoints es = (\<Union>e \<in> set es. {eFrom e, eTo e})"

definition valid_graph :: "Graph \<Rightarrow> bool" where
  "valid_graph g \<longleftrightarrow>
     square_graph g \<and> distinct (Nodes g) \<and>
     (\<forall>row \<in> set (AdjMatrix g). \<forall>w \<in> set row. 0 \<le> w \<and> w \<le> MaxWeight)"

definition mat_dims :: "nat \<Rightarrow> int list list \<Rightarrow> bool" where
  "mat_dims N mat \<longleftrightarrow> length mat = N \<and> (\<forall>row \<in> set mat. length row = N)"

definition mat_range :: "int list list \<Rightarrow> bool" where
  "mat_range mat \<longleftrightarrow> (\<forall>row \<in> set mat. \<forall>w \<in> set row. 0 \<le> w \<and> w \<le> MaxWeight)"

definition new_index :: "nat \<Rightarrow> nat \<Rightarrow> int" where
  "new_index x i = (if i = x then -1 else if i < x then int i else int i - 1)"

definition retained :: "nat \<Rightarrow> nat \<Rightarrow> nat list" where
  "retained N x = filter (\<lambda>i. i \<noteq> x) [0..<N]"

definition old_index :: "nat \<Rightarrow> nat \<Rightarrow> nat" where
  "old_index x a = (if a < x then a else Suc a)"

definition copied :: "int list list \<Rightarrow> nat \<Rightarrow> nat \<Rightarrow> nat \<Rightarrow> nat \<Rightarrow> int list list \<Rightarrow> bool" where
  "copied A x N r c adj \<longleftrightarrow>
     mat_dims (N - 1) adj \<and>
     (\<forall>a < N - 1. \<forall>b < N - 1.
        adj ! a ! b =
          (if old_index x a < r \<or> (old_index x a = r \<and> old_index x b < c)
           then A ! old_index x a ! old_index x b else 0))"

text \<open>The whole computation on a graph, and, for one pair, the slice \<open>candidates\<close>
  that \<open>FillViaNeighborPaths\<close> hands to \<open>dedupPathsByKey\<close>.\<close>

definition run_all :: "Graph \<Rightarrow> PairResult list option" where
  "run_all g = map_option Results (Option.bind (RunFloyd g) FillViaNeighborPaths)"


text \<open>Concrete inputs on which the statements below are evaluated.\<close>

definition scenario_A :: GraphJSON where
  "scenario_A = \<lparr>jNodes = [''A'', ''B'', ''C''],
     jEdges = [\<lparr>eFrom = ''A'', eTo = ''B'', eWeight = 50\<rparr>,
               \<lparr>eFrom = ''B'', eTo = ''A'', eWeight = 80\<rparr>,
               \<lparr>eFrom = ''A'', eTo = ''C'', eWeight = 100\<rparr>,
               \<lparr>eFrom = ''B'', eTo = ''C'', eWeight = 20\<rparr>]\<rparr>"

definition graph_A :: Graph where
  "graph_A = \<lparr>Nodes = [''A'', ''B'', ''C''],
     NameToIndex = build_index [''A'', ''B'', ''C''],
     AdjMatrix = [[0, 50, 100], [80, 0, 20], [0, 0, 0]]\<rparr>"




definition frame :: "PairResult \<Rightarrow> string \<times> string \<times> int \<times> string list list" where
  "frame r = (From r, To r, Distance r, Paths r)"

text \<open>A directed path of the graph with at least one edge: from \<open>i\<close>, through the
  intermediate nodes \<open>xs\<close> in this order, to \<open>j\<close>; every step is an edge.\<close>

fun is_path :: "Graph \<Rightarrow> nat \<Rightarrow> nat list \<Rightarrow> nat \<Rightarrow> bool" where
  "is_path g i [] j \<longleftrightarrow> i < NumNodes g \<and> j < NumNodes g \<and> Weight g i j > 0"
| "is_path g i (x # xs) j \<longleftrightarrow> i < NumNodes g \<and> Weight g i x > 0 \<and> is_path g x xs j"

fun path_weight :: "Graph \<Rightarrow> nat \<Rightarrow> nat list \<Rightarrow> nat \<Rightarrow> int" where
  "path_weight g i [] j = Weight g i j"
| "path_weight g i (x # xs) j = Weight g i x + path_weight g x xs j"

definition simple_path :: "Graph \<Rightarrow> nat \<Rightarrow> nat list \<Rightarrow> nat \<Rightarrow> bool" where
  "simple_path g i xs j \<longleftrightarrow> is_path g i xs j \<and> distinct xs \<and> i \<notin> set xs \<and> j \<notin> set xs"

definition bounded_graph :: "Graph \<Rightarrow> bool" where
  "bounded_graph g \<longleftrightarrow> valid_graph g \<and> NumNodes g < 2 ^ 32"

definition sound_at :: "Graph \<Rightarrow> nat \<Rightarrow> int list list \<Rightarrow> nat \<Rightarrow> nat \<Rightarrow> bool" where
  "sound_at g k dist i j \<longleftrightarrow>
     (i \<noteq> j \<longrightarrow> dist ! i ! j \<noteq> Inf_int \<longrightarrow>
        (\<exists>xs. is_path g i xs j \<and> set xs \<subseteq> {..<k} \<and> path_weight g i xs j = dist ! i ! j))"

definition complete_at :: "Graph \<Rightarrow> nat \<Rightarrow> int list list \<Rightarrow> nat \<Rightarrow> nat \<Rightarrow> bool" where
  "complete_at g k dist i j \<longleftrightarrow>
     (i \<noteq> j \<longrightarrow>
        (\<forall>xs. simple_path g i xs j \<and> set xs \<subseteq> {..<k} \<longrightarrow>
              dist ! i ! j \<noteq> Inf_int \<and> dist ! i ! j \<le> path_weight g i xs j))"

definition fw_inv :: "Graph \<Rightarrow> nat \<Rightarrow> (nat \<Rightarrow> nat \<Rightarrow> bool) \<Rightarrow> int list list \<Rightarrow> bool" where
  "fw_inv g k P dist \<longleftrightarrow>
     mat_dims (NumNodes g) dist \<and> (\<forall>i < NumNodes g. dist ! i ! i = 0) \<and>
     (\<forall>i < NumNodes g. \<forall>j < NumNodes g.
        sound_at g (Suc k) dist i j \<and> complete_at g k dist i j \<and>
        (P i j \<longrightarrow> complete_at g (Suc k) dist i j))"

definition level_inv :: "Graph \<Rightarrow> nat \<Rightarrow> int list list \<Rightarrow> bool" where
  "level_inv g k dist \<longleftrightarrow>
     mat_dims (NumNodes g) dist \<and> (\<forall>i < NumNodes g. dist ! i ! i = 0) \<and>
     (\<forall>i < NumNodes g. \<forall>j < NumNodes g. sound_at g k dist i j \<and> complete_at g k dist i j)"

text \<open>What the final matrix says about the graph.\<close>

definition shortest :: "Graph \<Rightarrow> nat \<Rightarrow> nat \<Rightarrow> int \<Rightarrow> bool" where
  "shortest g i j d \<longleftrightarrow>
     (\<exists>xs. is_path g i xs j \<and> path_weight g i xs j = d) \<and>
     (\<forall>xs. is_path g i xs j \<longrightarrow> d \<le> path_weight g i xs j)"

definition reachable :: "Graph \<Rightarrow> nat \<Rightarrow> nat \<Rightarrow> bool" where
  "reachable g i j \<longleftrightarrow> (\<exists>xs. is_path g i xs j)"

definition coll_inv :: "collector \<Rightarrow> bool" where
  "coll_inv st \<longleftrightarrow> distinct (fst st) \<and> (\<forall>p \<in> set (fst st). snd st (pathKey p))"

definition extends :: "nat \<Rightarrow> string list set \<Rightarrow> collector \<Rightarrow> collector \<Rightarrow> bool" where
  "extends mx G st st' \<longleftrightarrow>
     (\<exists>new. fst st' = fst st @ new \<and> set new \<subseteq> G) \<and>
     (length (fst st) \<le> mx \<longrightarrow> length (fst st') \<le> mx) \<and>
     (coll_inv st \<longrightarrow> coll_inv st')"

definition shortest_names :: "Graph \<Rightarrow> int list list \<Rightarrow> nat \<Rightarrow> nat \<Rightarrow> nat list \<Rightarrow> string list set" where
  "shortest_names g dist i j sfx =
     {map (Name g) (i # zs @ sfx) | zs. is_path g i zs j \<and> path_weight g i zs j = dist ! i ! j}"

definition final_dist :: "Graph \<Rightarrow> int list list" where
  "final_dist g = floyd_relax (NumNodes g) (init_dist g)"

definition entry_ok :: "Graph \<Rightarrow> nat \<Rightarrow> nat \<Rightarrow> PairResult \<Rightarrow> bool" where
  "entry_ok g i j p \<longleftrightarrow>
     From p = Name g i \<and> To p = Name g j \<and> ViaNeighborPaths p = [] \<and>
     (if final_dist g ! i ! j = Inf_int then Distance p = -1 \<and> Paths p = []
      else Distance p = final_dist g ! i ! j \<and>
           (if i = j then Paths p = [[Name g i]]
            else length (Paths p) \<le> MaxShortestPaths \<and> distinct (Paths p) \<and>
                 set (Paths p) \<subseteq> shortest_names g (final_dist g) i j [j]))"

definition pair_entry :: "PairResult list \<Rightarrow> nat \<Rightarrow> nat \<Rightarrow> nat \<Rightarrow> PairResult" where
  "pair_entry rs N i j = rs ! (i * N + j)"


section \<open>The graph store: proofs\<close>

lemma add_node_inv:
  assumes "node_inv st"
  shows "node_inv (add_node n st)" and "set (snd (add_node n st)) = insert n (set (snd st))"
  using assms by (auto simp: node_inv_def add_node_def split: prod.splits)

lemma fold_add_node_inv:
  "node_inv st \<Longrightarrow> node_inv (fold add_node ns st) \<and> set (snd (fold add_node ns st)) = set ns \<union> set (snd st)"
proof (induction ns arbitrary: st)
  case Nil
  then show ?case by simp
next
  case (Cons n ns)
  from add_node_inv[OF Cons.prems, of n] Cons.IH[of "add_node n st"]
  show ?case by auto
qed

lemma fold_edges_inv:
  "node_inv st \<Longrightarrow>
   node_inv (fold (\<lambda>e st. fold add_node [eFrom e, eTo e] st) es st) \<and>
   set (snd (fold (\<lambda>e st. fold add_node [eFrom e, eTo e] st) es st)) = endpoints es \<union> set (snd st)"
proof (induction es arbitrary: st)
  case Nil
  then show ?case by (simp add: endpoints_def)
next
  case (Cons e es)
  let ?st = "fold add_node [eFrom e, eTo e] st"
  from fold_add_node_inv[OF Cons.prems, of "[eFrom e, eTo e]"]
  have 1: "node_inv ?st" and 2: "set (snd ?st) = {eFrom e, eTo e} \<union> set (snd st)" by auto
  from Cons.IH[OF 1] 2 show ?case by (auto simp: endpoints_def)
qed

lemma collect_nodes_set: "set (collect_nodes gj) = set (jNodes gj) \<union> endpoints (jEdges gj)"
  and collect_nodes_distinct: "distinct (collect_nodes gj)"
proof -
  have 0: "node_inv (\<lambda>_. False, [])" by (simp add: node_inv_def)
  from fold_add_node_inv[OF 0, of "jNodes gj"]
  have 1: "node_inv (fold add_node (jNodes gj) (\<lambda>_. False, []))"
    and 2: "set (snd (fold add_node (jNodes gj) (\<lambda>_. False, []))) = set (jNodes gj)" by auto
  from fold_edges_inv[OF 1, of "jEdges gj"] 2
  show "set (collect_nodes gj) = set (jNodes gj) \<union> endpoints (jEdges gj)"
    and "distinct (collect_nodes gj)"
    by (auto simp: collect_nodes_def node_inv_def)
qed

lemma check_weights_None:
  "check_weights es = None \<longleftrightarrow> (\<forall>e \<in> set es. MinWeight \<le> eWeight e \<and> eWeight e \<le> MaxWeight)"
  by (induction es) auto

text \<open>
  Claim C7. \<open>NewFromStruct\<close> returns an error (\<open>Inl\<close>, and then no graph at all)
  exactly when some edge weight lies outside \<open>[1, 1000]\<close> or the node set, the declared
  nodes together with the edge endpoints, is empty; on every other input it returns a
  graph (\<open>Inr\<close>) and no error.
\<close>

theorem NewFromStruct_error_iff:
  "((\<exists>err. NewFromStruct gj = Inl err) \<longleftrightarrow>
      (\<exists>e \<in> set (jEdges gj). eWeight e < 1 \<or> eWeight e > 1000) \<or>
      set (jNodes gj) \<union> (\<Union>e \<in> set (jEdges gj). {eFrom e, eTo e}) = {}) \<and>
   ((\<exists>g. NewFromStruct gj = Inr g) \<longleftrightarrow>
      \<not> ((\<exists>e \<in> set (jEdges gj). eWeight e < 1 \<or> eWeight e > 1000) \<or>
      set (jNodes gj) \<union> (\<Union>e \<in> set (jEdges gj). {eFrom e, eTo e}) = {}))"
proof (cases "check_weights (jEdges gj)")
  case None
  then have ok: "\<forall>e \<in> set (jEdges gj). 1 \<le> eWeight e \<and> eWeight e \<le> 1000"
    by (simp add: check_weights_None MinWeight_def MaxWeight_def)
  have "length (collect_nodes gj) = 0 \<longleftrightarrow> set (jNodes gj) \<union> endpoints (jEdges gj) = {}"
    using collect_nodes_set[of gj] by (metis length_0_conv set_empty)
  with None ok show ?thesis
    by (auto simp: NewFromStruct_def Let_def endpoints_def)
next
  case (Some err)
  then have "\<not> (\<forall>e \<in> set (jEdges gj). MinWeight \<le> eWeight e \<and> eWeight e \<le> MaxWeight)"
    using check_weights_None[of "jEdges gj"] by simp
  then have "\<exists>e \<in> set (jEdges gj). eWeight e < 1 \<or> eWeight e > 1000"
    by (force simp: MinWeight_def MaxWeight_def not_le)
  with Some show ?thesis by (auto simp: NewFromStruct_def)
qed

lemma mat_dims_nth: "mat_dims N mat \<Longrightarrow> i < N \<Longrightarrow> length (mat ! i) = N"
  by (simp add: mat_dims_def)

lemma set_cell_beyond: "\<not> i < length mat \<Longrightarrow> set_cell i j v mat = mat"
  by (simp add: set_cell_def list_update_beyond)

lemma mat_dims_set_cell: "mat_dims N mat \<Longrightarrow> mat_dims N (set_cell i j v mat)"
proof (cases "i < length mat")
  case True
  assume "mat_dims N mat"
  with True show ?thesis
    unfolding mat_dims_def set_cell_def
    by (auto dest!: set_update_subset_insert[THEN subsetD])
qed (simp add: set_cell_beyond)

lemma mat_range_set_cell:
  "mat_range mat \<Longrightarrow> 0 \<le> v \<Longrightarrow> v \<le> MaxWeight \<Longrightarrow> mat_range (set_cell i j v mat)"
proof (cases "i < length mat")
  case True
  assume "mat_range mat" "0 \<le> v" "v \<le> MaxWeight"
  with True show ?thesis
    unfolding mat_range_def set_cell_def
    by (auto dest!: set_update_subset_insert[THEN subsetD])
qed (simp add: set_cell_beyond)

lemma mat_dims_zero: "mat_dims N (replicate N (replicate N 0))"
  by (simp add: mat_dims_def)

lemma mat_range_zero: "mat_range (replicate N (replicate M 0))"
  by (simp add: mat_range_def MaxWeight_def)

lemma set_cell_nth:
  "a < length mat \<Longrightarrow> b < length (mat ! a) \<Longrightarrow>
   set_cell i j v mat ! a ! b = (if a = i \<and> b = j then v else mat ! a ! b)"
  by (cases "a = i") (auto simp: set_cell_def nth_list_update)

lemma build_adj_props:
  assumes "\<forall>e \<in> set es. 0 \<le> eWeight e \<and> eWeight e \<le> MaxWeight"
  shows "mat_dims N (build_adj m N es) \<and> mat_range (build_adj m N es)"
proof -
  have "mat_dims N mat \<and> mat_range mat \<Longrightarrow>
        mat_dims N (fold (\<lambda>e adj. set_cell (lookup_idx m (eFrom e)) (lookup_idx m (eTo e)) (eWeight e) adj) es mat) \<and>
        mat_range (fold (\<lambda>e adj. set_cell (lookup_idx m (eFrom e)) (lookup_idx m (eTo e)) (eWeight e) adj) es mat)"
    for mat using assms
  proof (induction es arbitrary: mat)
    case Nil
    then show ?case by simp
  next
    case (Cons e es)
    then show ?case by (simp add: mat_dims_set_cell mat_range_set_cell)
  qed
  then show ?thesis unfolding build_adj_def using mat_dims_zero mat_range_zero by blast
qed

lemma valid_graph_alt:
  "valid_graph g \<longleftrightarrow> mat_dims (length (Nodes g)) (AdjMatrix g) \<and> distinct (Nodes g) \<and> mat_range (AdjMatrix g)"
  by (auto simp: valid_graph_def square_graph_def mat_dims_def mat_range_def)

lemma NewFromStruct_valid:
  assumes "NewFromStruct gj = Inr g"
  shows "valid_graph g" and "Nodes g \<noteq> []" and "Nodes g = collect_nodes gj"
proof -
  from assms have cw: "check_weights (jEdges gj) = None"
    by (auto simp: NewFromStruct_def split: option.splits)
  then have w: "\<forall>e \<in> set (jEdges gj). 0 \<le> eWeight e \<and> eWeight e \<le> MaxWeight"
    by (auto simp: check_weights_None MinWeight_def)
  from assms cw have g: "g = \<lparr>Nodes = collect_nodes gj, NameToIndex = build_index (collect_nodes gj),
        AdjMatrix = build_adj (build_index (collect_nodes gj)) (length (collect_nodes gj)) (jEdges gj)\<rparr>"
    and ne: "collect_nodes gj \<noteq> []"
    by (auto simp: NewFromStruct_def Let_def split: if_splits)
  show "Nodes g \<noteq> []" "Nodes g = collect_nodes gj" using g ne by simp_all
  show "valid_graph g"
    unfolding valid_graph_alt using build_adj_props[OF w] collect_nodes_distinct[of gj]
    by (simp add: g)
qed

lemma length_retained_upto: "length (filter (\<lambda>i. i \<noteq> x) [0..<n]) = (if x < n then n - 1 else n)"
  by (induction n) auto

lemma length_retained: "x < N \<Longrightarrow> length (retained N x) = N - 1"
  by (simp add: retained_def length_retained_upto)

lemma retained_nth: "x < N \<Longrightarrow> a < N - 1 \<Longrightarrow> retained N x ! a = (if a < x then a else Suc a)"
proof -
  assume x: "x < N" and a: "a < N - 1"
  have "[0..<N] = [0..<x] @ x # [Suc x..<N]"
    using x by (metis le_add1 less_imp_add_positive upt_add_eq_append upt_conv_Cons zero_less_iff_neq_zero add.right_neutral less_irrefl_nat upt_rec)
  then have "retained N x = [0..<x] @ [Suc x..<N]"
    by (simp add: retained_def filter_id_conv)
  then show ?thesis using a x by (auto simp: nth_append)
qed

lemma renumber_fold:
  assumes "n \<le> N" "length o0 = N"
  shows "fold (renumber_step g x) [0..<n] (o0, []) =
         (map (new_index x) [0..<n] @ drop n o0, map (\<lambda>i. Nodes g ! i) (filter (\<lambda>i. i \<noteq> x) [0..<n]))"
  using assms(1)
proof (induction n)
  case 0
  then show ?case by simp
next
  case (Suc n)
  then have n: "n < N" by simp
  have len: "length (map (new_index x) [0..<n] @ drop n o0) = N" using n assms(2) by simp
  have upd: "(map (new_index x) [0..<n] @ drop n o0)[n := v] = map (new_index x) [0..<n] @ v # drop (Suc n) o0" for v
    using n assms(2) by (simp add: list_update_append Cons_nth_drop_Suc[symmetric])
  have step: "renumber_step g x n (A, B) =
      (A[n := new_index x n], B @ (if n = x then [] else [Nodes g ! n]))"
    if "length B = (if x < n then n - 1 else n)" for A B
    using that by (auto simp: renumber_step_def new_index_def)
  have "fold (renumber_step g x) [0..<Suc n] (o0, []) =
        renumber_step g x n (map (new_index x) [0..<n] @ drop n o0,
           map (\<lambda>i. Nodes g ! i) (filter (\<lambda>i. i \<noteq> x) [0..<n]))"
    using Suc by simp
  also have "\<dots> = (map (new_index x) [0..<n] @ new_index x n # drop (Suc n) o0,
        map (\<lambda>i. Nodes g ! i) (filter (\<lambda>i. i \<noteq> x) [0..<n]) @ (if n = x then [] else [Nodes g ! n]))"
    by (subst step) (simp_all add: length_retained_upto upd)
  finally show ?case by simp
qed

lemma CopyWithoutNode_parts:
  "CopyWithoutNode g x =
     (\<lparr>Nodes = map (\<lambda>i. Nodes g ! i) (retained (NumNodes g) x),
       NameToIndex = build_index (map (\<lambda>i. Nodes g ! i) (retained (NumNodes g) x)),
       AdjMatrix = fold (copy_row g x (map (new_index x) [0..<NumNodes g])) [0..<NumNodes g]
                     (replicate (length (retained (NumNodes g) x)) (replicate (length (retained (NumNodes g) x)) 0))\<rparr>,
      map (new_index x) [0..<NumNodes g])"
  unfolding CopyWithoutNode_def Let_def
  by (simp add: renumber_fold[of "NumNodes g" "NumNodes g"] retained_def)

lemma copied_cell:
  assumes "x < N" "r < N" "r \<noteq> x" "c < N" "NumNodes g = N"
    and inv: "copied (AdjMatrix g) x N r c adj"
  shows "copied (AdjMatrix g) x N r (Suc c) (copy_cell g x (map (new_index x) [0..<N]) r c adj)"
proof (cases "c = x \<or> AdjMatrix g ! r ! c = 0")
  case True
  then have eq: "copy_cell g x (map (new_index x) [0..<N]) r c adj = adj"
    by (auto simp: copy_cell_def)
  show ?thesis unfolding eq using inv True
    unfolding copied_def by (auto simp: old_index_def less_Suc_eq split: if_splits)
next
  case False
  then have cx: "c \<noteq> x" and nz: "AdjMatrix g ! r ! c \<noteq> 0" by auto
  let ?pr = "nat (new_index x r)" and ?pc = "nat (new_index x c)"
  have eq: "copy_cell g x (map (new_index x) [0..<N]) r c adj = set_cell ?pr ?pc (AdjMatrix g ! r ! c) adj"
    using False assms(2,4) by (simp add: copy_cell_def)
  have dims: "mat_dims (N - 1) adj" using inv by (simp add: copied_def)
  have pr: "?pr < N - 1" "old_index x ?pr = r" and pc: "?pc < N - 1" "old_index x ?pc = c"
    using assms(1-4) cx by (auto simp: new_index_def old_index_def)
  have inj: "a = ?pr \<longleftrightarrow> old_index x a = r" "a = ?pc \<longleftrightarrow> old_index x a = c" if "a < N - 1" for a
    using assms(1-4) cx that by (auto simp: new_index_def old_index_def)
  show ?thesis unfolding eq copied_def
  proof (intro conjI allI impI)
    show "mat_dims (N - 1) (set_cell ?pr ?pc (AdjMatrix g ! r ! c) adj)"
      using dims by (rule mat_dims_set_cell)
  next
    fix a b assume a: "a < N - 1" and b: "b < N - 1"
    have "set_cell ?pr ?pc (AdjMatrix g ! r ! c) adj ! a ! b =
          (if a = ?pr \<and> b = ?pc then AdjMatrix g ! r ! c else adj ! a ! b)"
      using a b dims by (intro set_cell_nth) (simp_all add: mat_dims_def)
    also have "\<dots> = (if old_index x a < r \<or> old_index x a = r \<and> old_index x b < Suc c
           then AdjMatrix g ! old_index x a ! old_index x b else 0)"
      using inv a b inj[OF a] inj[OF b] unfolding copied_def
      by (auto simp: less_Suc_eq)
    finally show "set_cell ?pr ?pc (AdjMatrix g ! r ! c) adj ! a ! b =
          (if old_index x a < r \<or> old_index x a = r \<and> old_index x b < Suc c
           then AdjMatrix g ! old_index x a ! old_index x b else 0)" .
  qed
qed

lemma copied_cells:
  assumes "x < N" "r < N" "r \<noteq> x" "NumNodes g = N" "n \<le> N"
    and inv: "copied (AdjMatrix g) x N r 0 adj"
  shows "copied (AdjMatrix g) x N r n (fold (copy_cell g x (map (new_index x) [0..<N]) r) [0..<n] adj)"
  using assms(5)
proof (induction n)
  case 0
  then show ?case using inv by simp
next
  case (Suc n)
  then show ?case using copied_cell[OF assms(1-3) _ assms(4)] by simp
qed

lemma copied_next_row:
  assumes "x < N" "r < N"
  shows "copied A x N r (if r = x then 0 else N) adj \<Longrightarrow> copied A x N (Suc r) 0 adj"
  unfolding copied_def
proof (intro conjI allI impI, goal_cases)
  case 1
  then show ?case by simp
next
  case (2 a b)
  have "old_index x b < N" "old_index x a \<noteq> x" using 2(3) assms by (auto simp: old_index_def)
  with 2 show ?case by (auto simp: less_Suc_eq)
qed

lemma copied_rows:
  assumes "x < N" "NumNodes g = N" "n \<le> N"
    and inv: "copied (AdjMatrix g) x N 0 0 adj"
  shows "copied (AdjMatrix g) x N n 0 (fold (copy_row g x (map (new_index x) [0..<N])) [0..<n] adj)"
  using assms(3)
proof (induction n)
  case 0
  then show ?case using inv by simp
next
  case (Suc n)
  then have n: "n < N" and IH: "copied (AdjMatrix g) x N n 0 (fold (copy_row g x (map (new_index x) [0..<N])) [0..<n] adj)"
    by simp_all
  let ?adj = "fold (copy_row g x (map (new_index x) [0..<N])) [0..<n] adj"
  have "copied (AdjMatrix g) x N n (if n = x then 0 else N) (copy_row g x (map (new_index x) [0..<N]) n ?adj)"
  proof (cases "n = x")
    case True
    then show ?thesis using IH by (simp add: copy_row_def)
  next
    case False
    then show ?thesis
      using copied_cells[OF assms(1) n False assms(2) le_refl IH]
      by (simp add: copy_row_def assms(2))
  qed
  from copied_next_row[OF assms(1) n this] show ?case by simp
qed

lemma CopyWithoutNode_adj:
  assumes "x < NumNodes g"
  shows "mat_dims (NumNodes g - 1) (AdjMatrix (fst (CopyWithoutNode g x)))"
    and "a < NumNodes g - 1 \<Longrightarrow> b < NumNodes g - 1 \<Longrightarrow>
         AdjMatrix (fst (CopyWithoutNode g x)) ! a ! b = AdjMatrix g ! old_index x a ! old_index x b"
proof -
  let ?N = "NumNodes g"
  have 0: "copied (AdjMatrix g) x ?N 0 0 (replicate (?N - 1) (replicate (?N - 1) 0))"
    by (simp add: copied_def mat_dims_zero)
  have fin: "copied (AdjMatrix g) x ?N ?N 0 (AdjMatrix (fst (CopyWithoutNode g x)))"
    using copied_rows[OF assms refl le_refl 0]
    by (simp add: CopyWithoutNode_parts length_retained[OF assms])
  show "mat_dims (NumNodes g - 1) (AdjMatrix (fst (CopyWithoutNode g x)))"
    using fin by (simp add: copied_def)
  show "AdjMatrix (fst (CopyWithoutNode g x)) ! a ! b = AdjMatrix g ! old_index x a ! old_index x b"
    if "a < NumNodes g - 1" "b < NumNodes g - 1"
  proof -
    have "old_index x a < ?N" using that assms by (auto simp: old_index_def)
    then show ?thesis using fin that unfolding copied_def by simp
  qed
qed

lemma build_index_snoc: "build_index (ns @ [n]) = (build_index ns)(n \<mapsto> length ns)"
  by (simp add: build_index_def enumerate_append_eq)

lemma build_index_Nil: "build_index [] = Map.empty"
  by (simp add: build_index_def)

lemma build_index_nth:
  "distinct ns \<Longrightarrow> a < length ns \<Longrightarrow> build_index ns (ns ! a) = Some a"
proof (induction ns rule: rev_induct)
  case Nil
  then show ?case by simp
next
  case (snoc n ns)
  show ?case
  proof (cases "a < length ns")
    case True
    with snoc show ?thesis by (auto simp: build_index_snoc nth_append)
  next
    case False
    with snoc.prems have "a = length ns" by simp
    then show ?thesis by (simp add: build_index_snoc)
  qed
qed

lemma retained_old_index: "x < N \<Longrightarrow> retained N x = map (old_index x) [0..<N - 1]"
  by (rule nth_equalityI) (simp_all add: length_retained retained_nth old_index_def)

lemma new_index_old_index: "new_index x (old_index x a) = int a"
  by (simp add: new_index_def old_index_def)

lemma old_index_bound: "x < N \<Longrightarrow> a < N - 1 \<Longrightarrow> old_index x a < N"
  by (auto simp: old_index_def)

lemma old_index_neq: "old_index x a \<noteq> x"
  by (simp add: old_index_def)

lemma old_index_inj: "old_index x a = old_index x b \<longleftrightarrow> a = b"
  by (auto simp: old_index_def split: if_splits)

lemma CopyWithoutNode_nodes:
  "Nodes (fst (CopyWithoutNode g x)) = map (\<lambda>i. Nodes g ! i) (retained (NumNodes g) x)"
  and CopyWithoutNode_oldToNew: "snd (CopyWithoutNode g x) = map (new_index x) [0..<NumNodes g]"
  and CopyWithoutNode_index: "NameToIndex (fst (CopyWithoutNode g x)) = build_index (Nodes (fst (CopyWithoutNode g x)))"
  by (simp_all add: CopyWithoutNode_parts)

lemma CopyWithoutNode_NumNodes: "x < NumNodes g \<Longrightarrow> NumNodes (fst (CopyWithoutNode g x)) = NumNodes g - 1"
  by (simp add: NumNodes_def CopyWithoutNode_nodes length_retained[unfolded NumNodes_def] length_retained)

lemma CopyWithoutNode_Name:
  "x < NumNodes g \<Longrightarrow> a < NumNodes g - 1 \<Longrightarrow> Name (fst (CopyWithoutNode g x)) a = Name g (old_index x a)"
  by (simp add: Name_def CopyWithoutNode_nodes length_retained retained_nth old_index_def)

lemma CopyWithoutNode_adj_eq:
  assumes "x < NumNodes g"
  shows "AdjMatrix (fst (CopyWithoutNode g x)) =
         map (\<lambda>i. map (\<lambda>j. AdjMatrix g ! i ! j) (retained (NumNodes g) x)) (retained (NumNodes g) x)"
proof (rule nth_equalityI)
  show len: "length (AdjMatrix (fst (CopyWithoutNode g x))) =
        length (map (\<lambda>i. map (\<lambda>j. AdjMatrix g ! i ! j) (retained (NumNodes g) x)) (retained (NumNodes g) x))"
    using CopyWithoutNode_adj(1)[OF assms] by (simp add: mat_dims_def length_retained[OF assms])
  fix a assume "a < length (AdjMatrix (fst (CopyWithoutNode g x)))"
  then have a: "a < NumNodes g - 1" using CopyWithoutNode_adj(1)[OF assms] by (simp add: mat_dims_def)
  show "AdjMatrix (fst (CopyWithoutNode g x)) ! a =
        map (\<lambda>i. map (\<lambda>j. AdjMatrix g ! i ! j) (retained (NumNodes g) x)) (retained (NumNodes g) x) ! a"
  proof (rule nth_equalityI)
    show "length (AdjMatrix (fst (CopyWithoutNode g x)) ! a) =
          length (map (\<lambda>i. map (\<lambda>j. AdjMatrix g ! i ! j) (retained (NumNodes g) x)) (retained (NumNodes g) x) ! a)"
      using CopyWithoutNode_adj(1)[OF assms] a
      by (simp add: mat_dims_nth length_retained[OF assms])
  next
    fix b assume "b < length (AdjMatrix (fst (CopyWithoutNode g x)) ! a)"
    then have b: "b < NumNodes g - 1"
      using CopyWithoutNode_adj(1)[OF assms] a by (simp add: mat_dims_nth)
    show "AdjMatrix (fst (CopyWithoutNode g x)) ! a ! b =
          map (\<lambda>i. map (\<lambda>j. AdjMatrix g ! i ! j) (retained (NumNodes g) x)) (retained (NumNodes g) x) ! a ! b"
      using CopyWithoutNode_adj(2)[OF assms a b] a b assms
      by (simp add: retained_old_index)
  qed
qed

lemma CopyWithoutNode_valid:
  assumes "valid_graph g" "x < NumNodes g"
  shows "valid_graph (fst (CopyWithoutNode g x))"
  unfolding valid_graph_alt
proof (intro conjI)
  let ?sub = "fst (CopyWithoutNode g x)"
  have N: "length (Nodes ?sub) = NumNodes g - 1"
    using CopyWithoutNode_NumNodes[OF assms(2)] by (simp add: NumNodes_def)
  show "mat_dims (length (Nodes ?sub)) (AdjMatrix ?sub)"
    using CopyWithoutNode_adj(1)[OF assms(2)] N by simp
  have d: "distinct (Nodes g)" and dims: "mat_dims (NumNodes g) (AdjMatrix g)" and rng: "mat_range (AdjMatrix g)"
    using assms(1) by (simp_all add: valid_graph_alt NumNodes_def)
  have "inj_on (\<lambda>i. Nodes g ! i) (set (retained (NumNodes g) x))"
    using d by (auto simp: inj_on_def retained_def NumNodes_def nth_eq_iff_index_eq)
  then show "distinct (Nodes ?sub)"
    by (simp add: CopyWithoutNode_nodes distinct_map retained_def)
  show "mat_range (AdjMatrix ?sub)"
    unfolding mat_range_def
  proof (intro ballI)
    fix row w assume "row \<in> set (AdjMatrix ?sub)" "w \<in> set row"
    then obtain i j where "i < NumNodes g" "j < NumNodes g" "w = AdjMatrix g ! i ! j"
      by (auto simp: CopyWithoutNode_adj_eq[OF assms(2)] retained_def)
    then have "AdjMatrix g ! i \<in> set (AdjMatrix g)" "w \<in> set (AdjMatrix g ! i)"
      using dims by (auto simp: mat_dims_def)
    then show "0 \<le> w \<and> w \<le> MaxWeight" using rng by (auto simp: mat_range_def)
  qed
qed

text \<open>
  Claim C8. For a graph with a square adjacency matrix and a node index \<open>x\<close>,
  \<open>CopyWithoutNode g x\<close> returns a graph whose nodes are the other nodes in ascending
  order of their original index, whose adjacency matrix holds exactly the cells of the
  retained rows and columns, and a slice \<open>oldToNew\<close> that sends \<open>x\<close> to \<open>-1\<close> and the
  retained indices, in ascending order, to \<open>0, 1, \<dots>\<close>. The source assigns to no part of
  the receiver, so the function is pure in the model: the original node list and matrix
  are the arguments, which stay as they are.
\<close>

theorem CopyWithoutNode_spec:
  assumes "square_graph g" and "x < NumNodes g"
  shows "case CopyWithoutNode g x of (sub, oldToNew) \<Rightarrow>
     Nodes sub = map (Name g) (filter (\<lambda>i. i \<noteq> x) [0..<NumNodes g]) \<and>
     AdjMatrix sub =
       map (\<lambda>i. map (\<lambda>j. Weight g i j) (filter (\<lambda>j. j \<noteq> x) [0..<NumNodes g]))
         (filter (\<lambda>i. i \<noteq> x) [0..<NumNodes g]) \<and>
     NameToIndex sub = build_index (Nodes sub) \<and>
     square_graph sub \<and>
     length oldToNew = NumNodes g \<and>
     oldToNew ! x = -1 \<and>
     map (\<lambda>i. oldToNew ! i) (filter (\<lambda>i. i \<noteq> x) [0..<NumNodes g]) = map int [0..<NumNodes g - 1]"
proof -
  obtain sub oldToNew where c: "CopyWithoutNode g x = (sub, oldToNew)" by fastforce
  then have sub: "sub = fst (CopyWithoutNode g x)" and o: "oldToNew = map (new_index x) [0..<NumNodes g]"
    using CopyWithoutNode_oldToNew[of g x] by simp_all
  have 1: "Nodes sub = map (Name g) (filter (\<lambda>i. i \<noteq> x) [0..<NumNodes g])"
    unfolding sub CopyWithoutNode_nodes retained_def Name_def ..
  have 2: "AdjMatrix sub =
       map (\<lambda>i. map (\<lambda>j. Weight g i j) (filter (\<lambda>j. j \<noteq> x) [0..<NumNodes g]))
         (filter (\<lambda>i. i \<noteq> x) [0..<NumNodes g])"
    unfolding sub CopyWithoutNode_adj_eq[OF assms(2)] retained_def Weight_def ..
  have 3: "NameToIndex sub = build_index (Nodes sub)"
    unfolding sub by (rule CopyWithoutNode_index)
  have 4: "square_graph sub"
    using CopyWithoutNode_adj(1)[OF assms(2)] CopyWithoutNode_NumNodes[OF assms(2)]
    by (simp add: sub square_graph_def mat_dims_def NumNodes_def)
  have 5: "length oldToNew = NumNodes g" "oldToNew ! x = -1"
    using assms(2) by (simp_all add: o new_index_def)
  have "map (\<lambda>i. oldToNew ! i) (retained (NumNodes g) x) = map int [0..<NumNodes g - 1]"
    using assms(2)
    by (simp add: retained_old_index o old_index_bound new_index_old_index)
  then have 6: "map (\<lambda>i. oldToNew ! i) (filter (\<lambda>i. i \<noteq> x) [0..<NumNodes g]) = map int [0..<NumNodes g - 1]"
    by (simp add: retained_def)
  show ?thesis unfolding c using 1 2 3 4 5 6 by simp
qed

theorem NewFromStruct_error_iff_witness:
  "(\<exists>err. NewFromStruct \<lparr>jNodes = [''A'', ''B''],
       jEdges = [\<lparr>eFrom = ''A'', eTo = ''B'', eWeight = 1001\<rparr>]\<rparr> = Inl err) \<and>
   (\<exists>err. NewFromStruct \<lparr>jNodes = [], jEdges = []\<rparr> = Inl err) \<and>
   (\<exists>g. NewFromStruct scenario_A = Inr g)"
  using NewFromStruct_error_iff [of "\<lparr>jNodes = [''A'', ''B''],
       jEdges = [\<lparr>eFrom = ''A'', eTo = ''B'', eWeight = 1001\<rparr>]\<rparr>"]
    NewFromStruct_error_iff [of "\<lparr>jNodes = [], jEdges = []\<rparr>"]
    NewFromStruct_error_iff [of scenario_A]
  by (simp add: scenario_A_def)

theorem CopyWithoutNode_spec_witness:
  "square_graph graph_A \<and> 1 < NumNodes graph_A \<and>
   (case CopyWithoutNode graph_A 1 of (sub, oldToNew) \<Rightarrow>
      Nodes sub = [''A'', ''C''] \<and> AdjMatrix sub = [[0, 100], [0, 0]] \<and>
      length oldToNew = 3 \<and> oldToNew ! 1 = -1)"
proof -
  have sq: "square_graph graph_A" by (simp add: square_graph_def graph_A_def)
  have lt: "1 < NumNodes graph_A" by (simp add: NumNodes_def graph_A_def)
  have nn: "NumNodes graph_A = 3" by (simp add: NumNodes_def graph_A_def)
  have up: "[0..<3] = [0, 1, 2::nat]" by (simp add: upt_rec)
  have nm: "Name graph_A 0 = ''A''" "Name graph_A 2 = ''C''"
    and w: "Weight graph_A 0 0 = 0" "Weight graph_A 0 2 = 100"
      "Weight graph_A 2 0 = 0" "Weight graph_A 2 2 = 0"
    by (simp_all add: Name_def Weight_def graph_A_def)
  show ?thesis
    using CopyWithoutNode_spec [OF sq lt] sq lt
    unfolding nn up by (simp add: nm w split: prod.splits)
qed


section \<open>Sorting, deduplication and the frame of the via-neighbor pass\<close>










lemma dedup_loop_length:
  "length result \<le> mx \<Longrightarrow> length (fst (dedup_loop mx cs (result, seen))) \<le> mx"
  by (induction cs arbitrary: result seen) (auto simp: Let_def)

lemma dedupPathsByKey_length: "length (dedupPathsByKey cs mx) \<le> mx"
  by (simp add: dedupPathsByKey_def dedup_loop_length)


lemma dedupPathsByKey_Nil: "dedupPathsByKey [] mx = []"
  by (simp add: dedupPathsByKey_def)



lemma fold_option_invariant:
  assumes "fold_option f xs s = Some s'" and "P s"
    and "\<And>x t t'. x \<in> set xs \<Longrightarrow> P t \<Longrightarrow> f x t = Some t' \<Longrightarrow> P t'"
  shows "P s'"
  using assms
proof (induction xs arbitrary: s)
  case Nil
  then show ?case by simp
next
  case (Cons x xs)
  from Cons.prems(1) obtain t where t: "f x s = Some t" "fold_option f xs t = Some s'"
    by (auto split: option.splits)
  have "P t" using Cons.prems(2,3) t(1) by auto
  then show ?case using Cons.IH[OF t(2)] Cons.prems(3) by auto
qed

lemma set_via_frame: "map frame (set_via a b d rs) = map frame rs"
  by (induction rs) (auto simp: frame_def)

lemma via_to_frame:
  "via_to g sub sd sp o2n nbs f t rs = Some rs' \<Longrightarrow> map frame rs' = map frame rs"
  by (auto simp: via_to_def Let_def set_via_frame split: if_splits)

lemma via_from_frame:
  assumes "via_from g f rs = Some rs'"
  shows "map frame rs' = map frame rs"
proof (cases "length (Neighbors g f) = 0")
  case True
  with assms show ?thesis by (simp add: via_from_def)
next
  case False
  obtain sub o2n where c: "CopyWithoutNode g f = (sub, o2n)" by fastforce
  obtain sd sp where s: "runFloydOnSubgraph sub = (sd, sp)" by fastforce
  from assms False c s
  have "fold_option (via_to g sub sd sp o2n (Neighbors g f) f) [0..<NumNodes g] rs = Some rs'"
    by (simp add: via_from_def)
  then show ?thesis
    by (rule fold_option_invariant[where P = "\<lambda>t. map frame t = map frame rs"])
      (auto dest: via_to_frame)
qed

lemma Fill_frame:
  assumes "FillViaNeighborPaths r = Some r'"
  shows "map frame (Results r') = map frame (Results r)"
    and "r_g r' = r_g r" "r_dist r' = r_dist r" "r_pred r' = r_pred r"
proof -
  from assms obtain rs where rs: "fold_option (via_from (r_g r)) [0..<NumNodes (r_g r)] (Results r) = Some rs"
    and r': "r' = r\<lparr>Results := rs\<rparr>"
    by (auto simp: FillViaNeighborPaths_def)
  from rs have "map frame rs = map frame (Results r)"
    by (rule fold_option_invariant[where P = "\<lambda>t. map frame t = map frame (Results r)"])
      (auto dest: via_from_frame)
  then show "map frame (Results r') = map frame (Results r)" by (simp add: r')
  show "r_g r' = r_g r" "r_dist r' = r_dist r" "r_pred r' = r_pred r" by (simp_all add: r')
qed

text \<open>
  Claim C9. A call of \<open>FillViaNeighborPaths\<close> that returns leaves the number and order
  of the entries of \<open>Results\<close> and the fields \<open>From\<close>, \<open>To\<close>, \<open>Distance\<close> and
  \<open>Paths\<close> of every entry as they were, as well as the graph and the two matrices of
  the receiver: only \<open>ViaNeighborPaths\<close> is written.
\<close>

theorem FillViaNeighborPaths_frame:
  assumes "FillViaNeighborPaths r = Some r'"
  shows "length (Results r') = length (Results r) \<and>
         map From (Results r') = map From (Results r) \<and>
         map To (Results r') = map To (Results r) \<and>
         map Distance (Results r') = map Distance (Results r) \<and>
         map Paths (Results r') = map Paths (Results r) \<and>
         r_g r' = r_g r \<and> r_dist r' = r_dist r \<and> r_pred r' = r_pred r"
proof -
  have m: "map frame (Results r') = map frame (Results r)" using Fill_frame(1)[OF assms] .
  have F: "map From xs = map fst (map frame xs)"
    "map To xs = map (fst \<circ> snd) (map frame xs)"
    "map Distance xs = map (fst \<circ> snd \<circ> snd) (map frame xs)"
    "map Paths xs = map (snd \<circ> snd \<circ> snd) (map frame xs)" for xs
    by (simp_all add: frame_def)
  have "length (map frame (Results r')) = length (map frame (Results r))" using m by simp
  then have "length (Results r') = length (Results r)" by simp
  then show ?thesis using Fill_frame(2-4)[OF assms] unfolding F m by simp
qed

theorem FillViaNeighborPaths_frame_witness:
  "\<exists>r r'. RunFloyd graph_A = Some r \<and> FillViaNeighborPaths r = Some r' \<and>
     ViaNeighborPaths (Results r' ! 1) \<noteq> ViaNeighborPaths (Results r ! 1) \<and>
     length (Results r') = length (Results r) \<and>
     map From (Results r') = map From (Results r) \<and>
     map To (Results r') = map To (Results r) \<and>
     map Distance (Results r') = map Distance (Results r) \<and>
     map Paths (Results r') = map Paths (Results r)"
proof -
  have a: "map_option (\<lambda>r. ViaNeighborPaths (Results r ! 1)) (RunFloyd graph_A) = Some []"
    by code_simp
  have b: "map_option (\<lambda>r. ViaNeighborPaths (Results r ! 1)) (Option.bind (RunFloyd graph_A) FillViaNeighborPaths) =
      Some [\<lparr>Path = [''A'', ''B''], pdDistance = 50\<rparr>]"
    by code_simp
  from a obtain r where r: "RunFloyd graph_A = Some r" "ViaNeighborPaths (Results r ! 1) = []"
    by auto
  from b r obtain r' where r': "FillViaNeighborPaths r = Some r'"
    "ViaNeighborPaths (Results r' ! 1) = [\<lparr>Path = [''A'', ''B''], pdDistance = 50\<rparr>]"
    by auto
  from FillViaNeighborPaths_frame[OF r'(1)] r r' show ?thesis by auto
qed


section \<open>The distance matrix: proofs\<close>

lemma is_path_nodes: "is_path g i xs j \<Longrightarrow> i < NumNodes g \<and> j < NumNodes g \<and> (\<forall>x \<in> set xs. x < NumNodes g)"
proof (induction xs arbitrary: i)
  case Nil
  then show ?case by simp
next
  case (Cons x xs)
  then have "is_path g x xs j" "i < NumNodes g" by simp_all
  with Cons.IH[of x] show ?case by simp
qed

lemma is_path_append:
  "is_path g i (xs @ k # ys) j \<longleftrightarrow> is_path g i xs k \<and> is_path g k ys j"
  by (induction xs arbitrary: i) (auto dest: is_path_nodes)

lemma path_weight_append:
  "path_weight g i (xs @ k # ys) j = path_weight g i xs k + path_weight g k ys j"
  by (induction xs arbitrary: i) auto

lemma Weight_range:
  "valid_graph g \<Longrightarrow> i < NumNodes g \<Longrightarrow> j < NumNodes g \<Longrightarrow> 0 \<le> Weight g i j \<and> Weight g i j \<le> MaxWeight"
  unfolding valid_graph_alt mat_dims_def mat_range_def Weight_def NumNodes_def
  by (metis nth_mem)

lemma path_weight_pos:
  "is_path g i xs j \<Longrightarrow> 0 < path_weight g i xs j"
  by (induction xs arbitrary: i) (auto simp: add_pos_pos)

lemma path_weight_upper:
  "valid_graph g \<Longrightarrow> is_path g i xs j \<Longrightarrow> path_weight g i xs j \<le> MaxWeight * (int (length xs) + 1)"
proof (induction xs arbitrary: i)
  case Nil
  then show ?case using Weight_range[of g i j] by simp
next
  case (Cons x xs)
  then have "x < NumNodes g" "i < NumNodes g" using is_path_nodes[of g x xs j] by auto
  then have "Weight g i x \<le> MaxWeight" using Weight_range[of g i x] Cons.prems(1) by simp
  moreover have "path_weight g x xs j \<le> MaxWeight * (int (length xs) + 1)"
    using Cons by simp
  ultimately show ?case by (simp add: algebra_simps)
qed

lemma simple_path_length:
  assumes "simple_path g i xs j"
  shows "length xs < NumNodes g"
proof -
  from assms have d: "distinct xs" and i: "i \<notin> set xs" and p: "is_path g i xs j"
    by (simp_all add: simple_path_def)
  from is_path_nodes[OF p] have "set xs \<subseteq> {..<NumNodes g} - {i}" "i < NumNodes g"
    using i by auto
  then have "card (set xs) \<le> card ({..<NumNodes g} - {i})"
    by (intro card_mono) auto
  also have "\<dots> = NumNodes g - 1" using \<open>i < NumNodes g\<close> by simp
  finally show ?thesis using d \<open>i < NumNodes g\<close> by (simp add: distinct_card)
qed

lemma simple_path_weight_upper:
  assumes "valid_graph g" "simple_path g i xs j"
  shows "path_weight g i xs j \<le> MaxWeight * int (NumNodes g)"
proof -
  have "path_weight g i xs j \<le> MaxWeight * (int (length xs) + 1)"
    using assms by (intro path_weight_upper) (simp_all add: simple_path_def)
  also have "\<dots> \<le> MaxWeight * int (NumNodes g)"
    using simple_path_length[OF assms(2)] by (simp add: MaxWeight_def)
  finally show ?thesis .
qed

text \<open>Cutting the cycles out of a path leaves a simple path that is not heavier.\<close>

lemma simple_path_exists:
  assumes "valid_graph g"
  shows "is_path g i xs j \<Longrightarrow>
     \<exists>ys. simple_path g i ys j \<and> set ys \<subseteq> set xs \<and> path_weight g i ys j \<le> path_weight g i xs j"
proof (induction xs arbitrary: i)
  case Nil
  then show ?case by (intro exI[of _ "[]"]) (simp add: simple_path_def)
next
  case (Cons x xs)
  then have e: "Weight g i x > 0" and i: "i < NumNodes g" and p: "is_path g x xs j" by simp_all
  from Cons.IH[OF p] obtain ys where ys: "simple_path g x ys j" "set ys \<subseteq> set xs"
    "path_weight g x ys j \<le> path_weight g x xs j" by blast
  then have py: "is_path g x ys j" and d: "distinct ys" and xy: "x \<notin> set ys" and jy: "j \<notin> set ys"
    by (simp_all add: simple_path_def)
  have j: "j < NumNodes g" using is_path_nodes[OF p] by simp
  have pos: "0 < path_weight g x xs j" using path_weight_pos[OF p] .
  consider (xj) "x = j" | (xi) "x \<noteq> j" "x = i" | (mem) "x \<noteq> j" "x \<noteq> i" "i \<in> set ys"
    | (new) "x \<noteq> j" "x \<noteq> i" "i \<notin> set ys" by blast
  then show ?case
  proof cases
    case xj
    show ?thesis
      using e i j pos xj by (intro exI[of _ "[]"]) (simp add: simple_path_def)
  next
    case xi
    show ?thesis
      using ys e xi by (intro exI[of _ ys]) auto
  next
    case mem
    then obtain as bs where s: "ys = as @ i # bs" by (meson split_list)
    have pb: "is_path g i bs j" and pa: "is_path g x as i"
      using py unfolding s is_path_append by simp_all
    have "path_weight g i bs j \<le> path_weight g x ys j"
      using path_weight_pos[OF pa] unfolding s path_weight_append by simp
    then show ?thesis
      using ys d jy pb e unfolding s
      by (intro exI[of _ bs]) (auto simp: simple_path_def)
  next
    case new
    show ?thesis
      using ys new d xy jy py e i
      by (intro exI[of _ "x # ys"]) (auto simp: simple_path_def)
  qed
qed

lemma simple_path_split:
  assumes "simple_path g i xs j" "set xs \<subseteq> {..<Suc k}" "k \<in> set xs"
  shows "\<exists>ys zs. simple_path g i ys k \<and> simple_path g k zs j \<and> set ys \<subseteq> {..<k} \<and> set zs \<subseteq> {..<k} \<and>
           path_weight g i xs j = path_weight g i ys k + path_weight g k zs j \<and> i \<noteq> k \<and> j \<noteq> k"
proof -
  from assms(3) obtain ys zs where s: "xs = ys @ k # zs" by (meson split_list)
  have d: "distinct xs" "i \<notin> set xs" "j \<notin> set xs" "is_path g i xs j"
    using assms(1) by (simp_all add: simple_path_def)
  have "set ys \<subseteq> {..<k}" "set zs \<subseteq> {..<k}"
    using assms(2) d(1) unfolding s by (auto simp: less_Suc_eq)
  moreover have "simple_path g i ys k" "simple_path g k zs j"
    using d unfolding s simple_path_def is_path_append by auto
  ultimately show ?thesis using d(2,3) unfolding s
    by (intro exI[of _ ys] exI[of _ zs]) (auto simp: path_weight_append)
qed

lemma subset_level: "set xs \<subseteq> {..<Suc k} \<Longrightarrow> k \<notin> set xs \<Longrightarrow> set xs \<subseteq> {..<k}"
  by (auto simp: less_Suc_eq)

lemma complete_at_Suc:
  assumes "complete_at g k dist i j"
    and "i \<noteq> k \<Longrightarrow> k \<noteq> j \<Longrightarrow> complete_at g k dist i k \<and> complete_at g k dist k j"
    and "i \<noteq> k \<Longrightarrow> k \<noteq> j \<Longrightarrow> dist ! i ! k \<noteq> Inf_int \<Longrightarrow> dist ! k ! j \<noteq> Inf_int \<Longrightarrow>
          dist ! i ! j \<noteq> Inf_int \<and> dist ! i ! j \<le> dist ! i ! k + dist ! k ! j"
  shows "complete_at g (Suc k) dist i j"
  unfolding complete_at_def
proof (intro impI allI)
  fix xs assume ij: "i \<noteq> j" and xs: "simple_path g i xs j \<and> set xs \<subseteq> {..<Suc k}"
  show "dist ! i ! j \<noteq> Inf_int \<and> dist ! i ! j \<le> path_weight g i xs j"
  proof (cases "k \<in> set xs")
    case False
    with xs subset_level[of xs k] assms(1) ij show ?thesis by (auto simp: complete_at_def)
  next
    case True
    from simple_path_split[OF _ _ True] xs obtain ys zs where
      s: "simple_path g i ys k" "simple_path g k zs j" "set ys \<subseteq> {..<k}" "set zs \<subseteq> {..<k}"
        "path_weight g i xs j = path_weight g i ys k + path_weight g k zs j" "i \<noteq> k" "j \<noteq> k"
      by blast
    from assms(2) s have a: "dist ! i ! k \<noteq> Inf_int \<and> dist ! i ! k \<le> path_weight g i ys k"
      and b: "dist ! k ! j \<noteq> Inf_int \<and> dist ! k ! j \<le> path_weight g k zs j"
      by (auto simp: complete_at_def)
    from assms(3) s(6,7) a b have "dist ! i ! j \<noteq> Inf_int \<and> dist ! i ! j \<le> dist ! i ! k + dist ! k ! j"
      by auto
    with a b s(5) show ?thesis by simp
  qed
qed

text \<open>During round \<open>k\<close> a finite entry of row \<open>k\<close> or of column \<open>k\<close> is the weight of
  a path and at most the weight of a simple path, hence small.\<close>

lemma fw_inv_dims: "fw_inv g k P dist \<Longrightarrow> mat_dims (NumNodes g) dist"
  and fw_inv_diag: "fw_inv g k P dist \<Longrightarrow> i < NumNodes g \<Longrightarrow> dist ! i ! i = 0"
  and fw_inv_sound: "fw_inv g k P dist \<Longrightarrow> i < NumNodes g \<Longrightarrow> j < NumNodes g \<Longrightarrow> sound_at g (Suc k) dist i j"
  and fw_inv_complete: "fw_inv g k P dist \<Longrightarrow> i < NumNodes g \<Longrightarrow> j < NumNodes g \<Longrightarrow> complete_at g k dist i j"
  and fw_inv_done: "fw_inv g k P dist \<Longrightarrow> i < NumNodes g \<Longrightarrow> j < NumNodes g \<Longrightarrow> P i j \<Longrightarrow> complete_at g (Suc k) dist i j"
  unfolding fw_inv_def by blast+

lemma entry_bound:
  assumes g: "valid_graph g" and inv: "fw_inv g k P dist"
    and ab: "a < NumNodes g" "b < NumNodes g" and k: "a = k \<or> b = k" and fin: "dist ! a ! b \<noteq> Inf_int"
  shows "0 \<le> dist ! a ! b \<and> dist ! a ! b \<le> MaxWeight * int (NumNodes g)"
proof (cases "a = b")
  case True
  have "dist ! a ! a = 0" using fw_inv_diag[OF inv ab(1)] .
  then show ?thesis unfolding True[symmetric] MaxWeight_def by simp
next
  case False
  have s: "sound_at g (Suc k) dist a b" using fw_inv_sound[OF inv ab] .
  have c: "complete_at g k dist a b" using fw_inv_complete[OF inv ab] .
  from s False fin obtain xs where xs: "is_path g a xs b" "set xs \<subseteq> {..<Suc k}"
    "path_weight g a xs b = dist ! a ! b" unfolding sound_at_def by blast
  from simple_path_exists[OF g xs(1)] obtain ys where ys: "simple_path g a ys b" "set ys \<subseteq> set xs"
    by blast
  have "a \<notin> set ys" "b \<notin> set ys" using ys(1) unfolding simple_path_def by blast+
  then have "k \<notin> set ys" using k by blast
  moreover have "set ys \<subseteq> {..<Suc k}" using ys(2) xs(2) by blast
  ultimately have "set ys \<subseteq> {..<k}" using subset_level by blast
  with c False ys(1) have "dist ! a ! b \<le> path_weight g a ys b" unfolding complete_at_def by blast
  also have "\<dots> \<le> MaxWeight * int (NumNodes g)" by (rule simple_path_weight_upper[OF g ys(1)])
  finally show ?thesis using path_weight_pos[OF xs(1)] xs(3) by simp
qed

lemma add64_small:
  assumes "0 \<le> a" "0 \<le> b" "a + b < 9223372036854775808"
  shows "add64 a b = a + b"
proof -
  have "(a + b + 9223372036854775808) mod 18446744073709551616 = a + b + 9223372036854775808"
    using assms by (intro mod_pos_pos_trivial) linarith+
  then show ?thesis unfolding add64_def by linarith
qed

lemma bounded_sum:
  assumes "bounded_graph g" "x \<le> MaxWeight * int (NumNodes g)" "y \<le> MaxWeight * int (NumNodes g)"
  shows "x + y < Inf_int"
proof -
  have "NumNodes g < 4294967296" using assms(1) unfolding bounded_graph_def by simp
  then have "int (NumNodes g) < 4294967296" by linarith
  then have "MaxWeight * int (NumNodes g) < 4294967296000" unfolding MaxWeight_def by linarith
  with assms(2,3) show ?thesis unfolding Inf_int_def by linarith
qed

lemma sound_at_cong: "d' ! a ! b = d ! a ! b \<Longrightarrow> sound_at g k d' a b = sound_at g k d a b"
  and complete_at_cong: "d' ! a ! b = d ! a ! b \<Longrightarrow> complete_at g k d' a b = complete_at g k d a b"
  by (simp_all add: sound_at_def complete_at_def)

lemma sound_at_mono: "sound_at g k d a b \<Longrightarrow> k \<le> k' \<Longrightarrow> sound_at g k' d a b"
  unfolding sound_at_def
  by (meson lessThan_subset_iff order_trans)

lemma fw_inv_weaken:
  assumes "fw_inv g k P dist" "\<And>a b. a < NumNodes g \<Longrightarrow> b < NumNodes g \<Longrightarrow> Q a b \<Longrightarrow> P a b"
  shows "fw_inv g k Q dist"
  using assms unfolding fw_inv_def by blast

lemma fw_inv_add:
  assumes "fw_inv g k P dist" "i < NumNodes g" "j < NumNodes g" "complete_at g (Suc k) dist i j"
  shows "fw_inv g k (\<lambda>a b. P a b \<or> (a = i \<and> b = j)) dist"
  using assms unfolding fw_inv_def by blast

lemma relax_step:
  assumes bg: "bounded_graph g" and inv: "fw_inv g k P dist"
    and k: "k < NumNodes g" and i: "i < NumNodes g" and j: "j < NumNodes g"
    and ik: "dist ! i ! k \<noteq> Inf_int"
  shows "fw_inv g k (\<lambda>a b. P a b \<or> (a = i \<and> b = j)) (relax k i j dist) \<and>
         relax k i j dist ! i ! k \<noteq> Inf_int"
proof -
  have vg: "valid_graph g" using bg by (simp add: bounded_graph_def)
  have dims: "mat_dims (NumNodes g) dist" using fw_inv_dims[OF inv] .
  have cij: "complete_at g k dist i j" and cik: "complete_at g k dist i k" and ckj: "complete_at g k dist k j"
    using fw_inv_complete[OF inv] i j k by simp_all
  show ?thesis
  proof (cases "dist ! k ! j = Inf_int")
    case True
    then have eq: "relax k i j dist = dist" by (simp add: relax_def)
    have "complete_at g (Suc k) dist i j"
      using cij cik ckj True by (intro complete_at_Suc) simp_all
    from fw_inv_add[OF inv i j this] ik show ?thesis unfolding eq by simp
  next
    case False
    let ?a = "dist ! i ! k" and ?b = "dist ! k ! j"
    have a: "0 \<le> ?a" "?a \<le> MaxWeight * int (NumNodes g)"
      using entry_bound[OF vg inv i k _ ik] by simp_all
    have b: "0 \<le> ?b" "?b \<le> MaxWeight * int (NumNodes g)"
      using entry_bound[OF vg inv k j _ False] by simp_all
    have lt: "?a + ?b < Inf_int" using bounded_sum[OF bg a(2) b(2)] .
    then have d: "add64 ?a ?b = ?a + ?b"
      using a(1) b(1) by (intro add64_small) (simp_all add: Inf_int_def)
    show ?thesis
    proof (cases "?a + ?b < dist ! i ! j")
      case no: False
      then have eq: "relax k i j dist = dist" using False d by (simp add: relax_def)
      have "complete_at g (Suc k) dist i j"
        using cij cik ckj no lt by (intro complete_at_Suc) auto
      from fw_inv_add[OF inv i j this] ik show ?thesis unfolding eq by simp
    next
      case yes: True
      let ?d = "set_cell i j (?a + ?b) dist"
      have eq: "relax k i j dist = ?d" using False d yes by (simp add: relax_def Let_def)
      have diag: "dist ! i ! i = 0" "dist ! k ! k = 0" "dist ! j ! j = 0"
        using fw_inv_diag[OF inv] i j k by simp_all
      have ij: "i \<noteq> j" using yes a(1) b(1) diag by auto
      have ki: "k \<noteq> i" using yes diag by auto
      have kj: "k \<noteq> j" using yes diag by auto
      have nth: "?d ! x ! y = (if x = i \<and> y = j then ?a + ?b else dist ! x ! y)"
        if "x < NumNodes g" "y < NumNodes g" for x y
        using that dims by (intro set_cell_nth) (simp_all add: mat_dims_def)
      have same: "?d ! x ! y = dist ! x ! y" if "x < NumNodes g" "y < NumNodes g" "\<not> (x = i \<and> y = j)" for x y
        using nth[OF that(1,2)] that(3) by simp
      have new: "?d ! i ! j = ?a + ?b" using nth[OF i j] by simp
      have s_new: "sound_at g (Suc k) ?d i j"
      proof -
        from fw_inv_sound[OF inv i k] ki ik obtain xs where xs: "is_path g i xs k" "set xs \<subseteq> {..<Suc k}"
          "path_weight g i xs k = ?a" unfolding sound_at_def by metis
        from fw_inv_sound[OF inv k j] kj False obtain ys where ys: "is_path g k ys j" "set ys \<subseteq> {..<Suc k}"
          "path_weight g k ys j = ?b" unfolding sound_at_def by metis
        have "is_path g i (xs @ k # ys) j" "set (xs @ k # ys) \<subseteq> {..<Suc k}"
          "path_weight g i (xs @ k # ys) j = ?d ! i ! j"
          using xs ys new by (simp_all add: is_path_append path_weight_append)
        then show ?thesis unfolding sound_at_def by blast
      qed
      have c_new: "complete_at g k ?d i j"
        unfolding complete_at_def
      proof (intro impI allI)
        fix xs assume xs: "simple_path g i xs j \<and> set xs \<subseteq> {..<k}"
        with cij ij have "dist ! i ! j \<le> path_weight g i xs j"
          unfolding complete_at_def by blast
        then show "?d ! i ! j \<noteq> Inf_int \<and> ?d ! i ! j \<le> path_weight g i xs j"
          unfolding new using yes lt by linarith
      qed
      have c1_new: "complete_at g (Suc k) ?d i j"
      proof (rule complete_at_Suc[OF c_new])
        show "complete_at g k ?d i k \<and> complete_at g k ?d k j"
          using cik ckj complete_at_cong[OF same[OF i k], of g k] complete_at_cong[OF same[OF k j], of g k] ki kj
          by simp
        show "?d ! i ! j \<noteq> Inf_int \<and> ?d ! i ! j \<le> ?d ! i ! k + ?d ! k ! j"
          using same[OF i k] same[OF k j] ki kj new lt by simp
      qed
      have "fw_inv g k (\<lambda>a b. P a b \<or> (a = i \<and> b = j)) ?d"
        unfolding fw_inv_def
      proof (intro conjI allI impI)
        show "mat_dims (NumNodes g) ?d" using dims by (rule mat_dims_set_cell)
      next
        fix x assume x: "x < NumNodes g"
        show "?d ! x ! x = 0" using same[OF x x] ij fw_inv_diag[OF inv x] by auto
      next
        fix x y assume xy: "x < NumNodes g" "y < NumNodes g"
        show "sound_at g (Suc k) ?d x y"
          using s_new fw_inv_sound[OF inv xy] same[OF xy, THEN sound_at_cong, of g "Suc k"]
          by (cases "x = i \<and> y = j") auto
      next
        fix x y assume xy: "x < NumNodes g" "y < NumNodes g"
        show "complete_at g k ?d x y"
          using c_new fw_inv_complete[OF inv xy] same[OF xy, THEN complete_at_cong, of g k]
          by (cases "x = i \<and> y = j") auto
      next
        fix x y assume xy: "x < NumNodes g" "y < NumNodes g" and P: "P x y \<or> x = i \<and> y = j"
        show "complete_at g (Suc k) ?d x y"
          using c1_new fw_inv_done[OF inv xy] P same[OF xy, THEN complete_at_cong, of g "Suc k"]
          by (cases "x = i \<and> y = j") auto
      qed
      moreover have "?d ! i ! k \<noteq> Inf_int" using same[OF i k] kj ik by simp
      ultimately show ?thesis unfolding eq by simp
    qed
  qed
qed

lemma relax_cells:
  assumes bg: "bounded_graph g" and k: "k < NumNodes g" and i: "i < NumNodes g"
    and inv: "fw_inv g k (\<lambda>a b. a < i) dist" and ik: "dist ! i ! k \<noteq> Inf_int"
  shows "n \<le> NumNodes g \<Longrightarrow>
         fw_inv g k (\<lambda>a b. a < i \<or> (a = i \<and> b < n)) (fold (relax k i) [0..<n] dist) \<and>
         fold (relax k i) [0..<n] dist ! i ! k \<noteq> Inf_int"
proof (induction n)
  case 0
  have "fw_inv g k (\<lambda>a b. a < i \<or> (a = i \<and> b < 0)) dist"
    using inv by (rule fw_inv_weaken) simp
  with ik show ?case by simp
next
  case (Suc n)
  then have n: "n < NumNodes g" by simp
  let ?d = "fold (relax k i) [0..<n] dist"
  from Suc have IH: "fw_inv g k (\<lambda>a b. a < i \<or> (a = i \<and> b < n)) ?d" "?d ! i ! k \<noteq> Inf_int"
    by simp_all
  from relax_step[OF bg IH(1) k i n IH(2)]
  have st: "fw_inv g k (\<lambda>a b. (a < i \<or> (a = i \<and> b < n)) \<or> (a = i \<and> b = n)) (relax k i n ?d)"
    "relax k i n ?d ! i ! k \<noteq> Inf_int" by simp_all
  have "fw_inv g k (\<lambda>a b. a < i \<or> (a = i \<and> b < Suc n)) (relax k i n ?d)"
    using st(1) by (rule fw_inv_weaken) (auto simp: less_Suc_eq)
  with st(2) show ?case by simp
qed

lemma relax_row_inv:
  assumes bg: "bounded_graph g" and k: "k < NumNodes g" and i: "i < NumNodes g"
    and inv: "fw_inv g k (\<lambda>a b. a < i) dist"
  shows "fw_inv g k (\<lambda>a b. a < Suc i) (relax_row (NumNodes g) k i dist)"
proof (cases "dist ! i ! k = Inf_int")
  case True
  then have eq: "relax_row (NumNodes g) k i dist = dist" by (simp add: relax_row_def)
  have row: "complete_at g (Suc k) dist i j" if j: "j < NumNodes g" for j
    using fw_inv_complete[OF inv i j] fw_inv_complete[OF inv i k] fw_inv_complete[OF inv k j] True
    by (intro complete_at_Suc) simp_all
  show ?thesis unfolding eq fw_inv_def
  proof (intro conjI allI impI)
    show "mat_dims (NumNodes g) dist" using fw_inv_dims[OF inv] .
  next
    fix x assume "x < NumNodes g" then show "dist ! x ! x = 0" using fw_inv_diag[OF inv] by simp
  next
    fix x y assume xy: "x < NumNodes g" "y < NumNodes g"
    show "sound_at g (Suc k) dist x y" using fw_inv_sound[OF inv xy] .
    show "complete_at g k dist x y" using fw_inv_complete[OF inv xy] .
    assume "x < Suc i"
    then show "complete_at g (Suc k) dist x y"
      using row[OF xy(2)] fw_inv_done[OF inv xy] by (cases "x = i") auto
  qed
next
  case False
  then have eq: "relax_row (NumNodes g) k i dist = fold (relax k i) [0..<NumNodes g] dist"
    by (simp add: relax_row_def)
  from relax_cells[OF bg k i inv False le_refl]
  have "fw_inv g k (\<lambda>a b. a < i \<or> (a = i \<and> b < NumNodes g)) (fold (relax k i) [0..<NumNodes g] dist)"
    by simp
  then show ?thesis unfolding eq by (rule fw_inv_weaken) (auto simp: less_Suc_eq)
qed

lemma relax_rows:
  assumes bg: "bounded_graph g" and k: "k < NumNodes g"
    and inv: "fw_inv g k (\<lambda>a b. False) dist"
  shows "n \<le> NumNodes g \<Longrightarrow>
         fw_inv g k (\<lambda>a b. a < n) (fold (relax_row (NumNodes g) k) [0..<n] dist)"
proof (induction n)
  case 0
  show ?case using inv by simp
next
  case (Suc n)
  then have n: "n < NumNodes g"
    and IH: "fw_inv g k (\<lambda>a b. a < n) (fold (relax_row (NumNodes g) k) [0..<n] dist)" by simp_all
  from relax_row_inv[OF bg k n IH] show ?case by simp
qed

lemma level_inv_start: "level_inv g k dist \<Longrightarrow> fw_inv g k (\<lambda>a b. False) dist"
  unfolding level_inv_def fw_inv_def using sound_at_mono[of g k dist _ _ "Suc k"] by auto

lemma relax_mid_inv:
  assumes bg: "bounded_graph g" and k: "k < NumNodes g" and inv: "level_inv g k dist"
  shows "level_inv g (Suc k) (relax_mid (NumNodes g) k dist)"
proof -
  from relax_rows[OF bg k level_inv_start[OF inv] le_refl]
  have "fw_inv g k (\<lambda>a b. a < NumNodes g) (relax_mid (NumNodes g) k dist)"
    by (simp add: relax_mid_def)
  then show ?thesis unfolding fw_inv_def level_inv_def by blast
qed

lemma floyd_relax_levels:
  assumes bg: "bounded_graph g" and inv: "level_inv g 0 dist"
  shows "n \<le> NumNodes g \<Longrightarrow> level_inv g n (fold (relax_mid (NumNodes g)) [0..<n] dist)"
proof (induction n)
  case 0
  show ?case using inv by simp
next
  case (Suc n)
  then have n: "n < NumNodes g"
    and IH: "level_inv g n (fold (relax_mid (NumNodes g)) [0..<n] dist)" by simp_all
  from relax_mid_inv[OF bg n IH] show ?case by simp
qed

lemma init_dist_nth:
  "i < NumNodes g \<Longrightarrow> j < NumNodes g \<Longrightarrow> init_dist g ! i ! j = init_cell g i j"
  by (simp add: init_dist_def)

lemma init_dist_level:
  assumes vg: "valid_graph g"
  shows "level_inv g 0 (init_dist g)"
  unfolding level_inv_def
proof (intro conjI allI impI)
  show "mat_dims (NumNodes g) (init_dist g)" by (auto simp: mat_dims_def init_dist_def)
next
  fix i assume "i < NumNodes g"
  then show "init_dist g ! i ! i = 0" by (simp add: init_dist_nth init_cell_def)
next
  fix i j assume ij: "i < NumNodes g" "j < NumNodes g"
  show "sound_at g 0 (init_dist g) i j"
    unfolding sound_at_def
  proof (intro impI)
    assume "i \<noteq> j" "init_dist g ! i ! j \<noteq> Inf_int"
    then have "is_path g i [] j \<and> set [] \<subseteq> {..<0::nat} \<and> path_weight g i [] j = init_dist g ! i ! j"
      using ij by (auto simp: init_dist_nth init_cell_def Let_def split: if_splits)
    then show "\<exists>xs. is_path g i xs j \<and> set xs \<subseteq> {..<0} \<and> path_weight g i xs j = init_dist g ! i ! j"
      by blast
  qed
  show "complete_at g 0 (init_dist g) i j"
    unfolding complete_at_def
  proof (intro impI allI)
    fix xs assume ne: "i \<noteq> j" and "simple_path g i xs j \<and> set xs \<subseteq> {..<0}"
    then have xs: "xs = []" and p: "is_path g i [] j" by (auto simp: simple_path_def)
    have "Weight g i j \<le> MaxWeight" using Weight_range[OF vg ij] by simp
    then have "Weight g i j \<noteq> Inf_int" by (simp add: MaxWeight_def Inf_int_def)
    then show "init_dist g ! i ! j \<noteq> Inf_int \<and> init_dist g ! i ! j \<le> path_weight g i xs j"
      using p ne ij unfolding xs by (simp add: init_dist_nth init_cell_def)
  qed
qed

lemma floyd_relax_level:
  assumes "bounded_graph g"
  shows "level_inv g (NumNodes g) (floyd_relax (NumNodes g) (init_dist g))"
proof -
  have "valid_graph g" using assms by (simp add: bounded_graph_def)
  from floyd_relax_levels[OF assms init_dist_level[OF this] le_refl]
  show ?thesis by (simp add: floyd_relax_def)
qed

lemma level_inv_final:
  assumes vg: "valid_graph g" and inv: "level_inv g (NumNodes g) dist"
    and ij: "i < NumNodes g" "j < NumNodes g" "i \<noteq> j"
  shows "dist ! i ! j = Inf_int \<longleftrightarrow> \<not> reachable g i j"
    and "dist ! i ! j \<noteq> Inf_int \<Longrightarrow> shortest g i j (dist ! i ! j)"
proof -
  from inv ij have s: "sound_at g (NumNodes g) dist i j" and c: "complete_at g (NumNodes g) dist i j"
    by (simp_all add: level_inv_def)
  have lower: "dist ! i ! j \<noteq> Inf_int \<and> dist ! i ! j \<le> path_weight g i xs j" if p: "is_path g i xs j" for xs
  proof -
    from simple_path_exists[OF vg p] obtain ys where ys: "simple_path g i ys j"
      "path_weight g i ys j \<le> path_weight g i xs j" by blast
    have "set ys \<subseteq> {..<NumNodes g}" using is_path_nodes[of g i ys j] ys(1)
      by (auto simp: simple_path_def)
    with c ij(3) ys(1) have "dist ! i ! j \<noteq> Inf_int \<and> dist ! i ! j \<le> path_weight g i ys j"
      unfolding complete_at_def by blast
    with ys(2) show ?thesis by simp
  qed
  have upper: "\<exists>xs. is_path g i xs j \<and> path_weight g i xs j = dist ! i ! j" if "dist ! i ! j \<noteq> Inf_int"
    using s that ij(3) unfolding sound_at_def by blast
  show "dist ! i ! j = Inf_int \<longleftrightarrow> \<not> reachable g i j"
    unfolding reachable_def using lower upper by blast
  show "shortest g i j (dist ! i ! j)" if "dist ! i ! j \<noteq> Inf_int"
    unfolding shortest_def using lower upper[OF that] by blast
qed

lemma path_simple_or_lighter:
  "is_path g i xs j \<Longrightarrow>
     simple_path g i xs j \<or> (\<exists>ys. is_path g i ys j \<and> path_weight g i ys j < path_weight g i xs j)"
proof (induction xs arbitrary: i)
  case Nil
  then show ?case by (simp add: simple_path_def)
next
  case (Cons x xs)
  then have e: "Weight g i x > 0" and i: "i < NumNodes g" and p: "is_path g x xs j" by simp_all
  have j: "j < NumNodes g" using is_path_nodes[OF p] by simp
  from Cons.IH[OF p] consider (light) ys where "is_path g x ys j" "path_weight g x ys j < path_weight g x xs j"
    | (simple) "simple_path g x xs j" by blast
  then show ?case
  proof cases
    case light
    then have "is_path g i (x # ys) j \<and> path_weight g i (x # ys) j < path_weight g i (x # xs) j"
      using e i by simp
    then show ?thesis by blast
  next
    case simple
    then have d: "distinct xs" "x \<notin> set xs" "j \<notin> set xs" by (simp_all add: simple_path_def)
    have pos: "0 < path_weight g x xs j" using path_weight_pos[OF p] .
    consider (xj) "x = j" | (xi) "x \<noteq> j" "x = i" | (mem) "x \<noteq> j" "x \<noteq> i" "i \<in> set xs"
      | (new) "x \<noteq> j" "x \<noteq> i" "i \<notin> set xs" by blast
    then show ?thesis
    proof cases
      case xj
      then have "is_path g i [] j \<and> path_weight g i [] j < path_weight g i (x # xs) j"
        using e i j pos by simp
      then show ?thesis by blast
    next
      case xi
      then have "is_path g i xs j \<and> path_weight g i xs j < path_weight g i (x # xs) j"
        using p e by simp
      then show ?thesis by blast
    next
      case mem
      then obtain as bs where s: "xs = as @ i # bs" by (meson split_list)
      have pb: "is_path g i bs j" and pa: "is_path g x as i"
        using p unfolding s is_path_append by simp_all
      have "path_weight g i bs j < path_weight g i (x # xs) j"
        using path_weight_pos[OF pa] e unfolding s by (simp add: path_weight_append)
      with pb show ?thesis by blast
    next
      case new
      then have "simple_path g i (x # xs) j"
        using d p e i by (auto simp: simple_path_def)
      then show ?thesis by blast
    qed
  qed
qed

lemma shortest_is_simple:
  assumes "shortest g i j d" "is_path g i xs j" "path_weight g i xs j = d"
  shows "simple_path g i xs j"
  using path_simple_or_lighter[OF assms(2)] assms(1,3) unfolding shortest_def
  by (metis not_less)

text \<open>The entries of the final matrix are small, so that the sum in the predecessor test
  does not wrap around.\<close>

lemma final_entry_bound:
  assumes vg: "valid_graph g" and inv: "level_inv g (NumNodes g) dist"
    and ab: "a < NumNodes g" "b < NumNodes g" and fin: "dist ! a ! b \<noteq> Inf_int"
  shows "0 \<le> dist ! a ! b \<and> dist ! a ! b \<le> MaxWeight * int (NumNodes g)"
proof (cases "a = b")
  case True
  then show ?thesis using inv ab(1) by (simp add: level_inv_def MaxWeight_def)
next
  case False
  from level_inv_final(2)[OF vg inv ab False fin]
  obtain xs where xs: "is_path g a xs b" "path_weight g a xs b = dist ! a ! b"
    and low: "\<And>ys. is_path g a ys b \<Longrightarrow> dist ! a ! b \<le> path_weight g a ys b"
    unfolding shortest_def by blast
  from simple_path_exists[OF vg xs(1)] obtain ys where ys: "simple_path g a ys b" by blast
  then have "dist ! a ! b \<le> path_weight g a ys b" using low by (simp add: simple_path_def)
  also have "\<dots> \<le> MaxWeight * int (NumNodes g)" by (rule simple_path_weight_upper[OF vg ys])
  finally show ?thesis using path_weight_pos[OF xs(1)] xs(2) by simp
qed

lemma is_pred_final:
  assumes bg: "bounded_graph g" and inv: "level_inv g (NumNodes g) dist"
    and ij: "i < NumNodes g" "j < NumNodes g" "m < NumNodes g"
  shows "is_pred g dist i j m \<longleftrightarrow>
     m \<noteq> i \<and> Weight g m j > 0 \<and> dist ! i ! m \<noteq> Inf_int \<and> dist ! i ! m + Weight g m j = dist ! i ! j"
proof (cases "dist ! i ! m = Inf_int")
  case True
  then show ?thesis by (simp add: is_pred_def Let_def)
next
  case False
  have vg: "valid_graph g" using bg by (simp add: bounded_graph_def)
  have b: "0 \<le> dist ! i ! m" "dist ! i ! m \<le> MaxWeight * int (NumNodes g)"
    using final_entry_bound[OF vg inv ij(1,3) False] by simp_all
  have w: "0 \<le> Weight g m j" "Weight g m j \<le> MaxWeight" using Weight_range[OF vg ij(3,2)] by simp_all
  have "NumNodes g \<noteq> 0" using ij(1) by simp
  then have "MaxWeight \<le> MaxWeight * int (NumNodes g)" by (simp add: MaxWeight_def)
  with w have "Weight g m j \<le> MaxWeight * int (NumNodes g)" by simp
  from bounded_sum[OF bg b(2) this] have "dist ! i ! m + Weight g m j < Inf_int" .
  then have "add64 (dist ! i ! m) (Weight g m j) = dist ! i ! m + Weight g m j"
    using b(1) w(1) by (intro add64_small) (simp_all add: Inf_int_def)
  then show ?thesis by (simp add: is_pred_def Let_def)
qed

lemma build_pred_nth:
  "i < NumNodes g \<Longrightarrow> j < NumNodes g \<Longrightarrow> build_pred g dist ! i ! j = pred_cell g dist i j"
  by (simp add: build_pred_def)


section \<open>Path enumeration: proofs\<close>

lemma extends_refl: "extends mx G st st"
  by (simp add: extends_def)

lemma extends_trans:
  assumes "extends mx G st st1" "extends mx G st1 st2"
  shows "extends mx G st st2"
proof -
  from assms obtain n1 n2 where "fst st1 = fst st @ n1" "set n1 \<subseteq> G" "fst st2 = fst st1 @ n2" "set n2 \<subseteq> G"
    unfolding extends_def by blast
  then have "fst st2 = fst st @ (n1 @ n2) \<and> set (n1 @ n2) \<subseteq> G" by simp
  then have "\<exists>new. fst st2 = fst st @ new \<and> set new \<subseteq> G" by blast
  with assms show ?thesis unfolding extends_def by blast
qed

lemma extends_mono: "extends mx G st st' \<Longrightarrow> G \<subseteq> G' \<Longrightarrow> extends mx G' st st'"
  unfolding extends_def by blast

lemma add_path_extends:
  assumes "length (fst st) < mx" "p \<in> G"
  shows "extends mx G st (add_path p st)"
proof (cases "snd st (pathKey p)")
  case True
  then have "add_path p st = st" by (cases st) (simp add: add_path_def Let_def)
  then show ?thesis by (simp add: extends_refl)
next
  case False
  then have eq: "add_path p st = (fst st @ [p], (snd st)(pathKey p := True))"
    by (cases st) (simp add: add_path_def Let_def)
  have "coll_inv st \<Longrightarrow> p \<notin> set (fst st)" using False by (auto simp: coll_inv_def)
  then have "coll_inv st \<longrightarrow> coll_inv (fst st @ [p], (snd st)(pathKey p := True))"
    by (auto simp: coll_inv_def)
  then show ?thesis unfolding eq extends_def using assms by auto
qed

lemma collect_Call_full:
  "mx \<le> length (fst st) \<Longrightarrow> collect g dist pred mx (Call i j suffix) st = Some st"
  by (subst collect.simps) simp

lemma collect_Call_step:
  "\<not> mx \<le> length (fst st) \<Longrightarrow> i \<noteq> j \<Longrightarrow>
   collect g dist pred mx (Call i j suffix) st =
   collect g dist pred mx (Loop i suffix (pred ! i ! j))
     (if Weight g i j > 0 \<and> Weight g i j = dist ! i ! j then add_path (Name g i # suffix) st else st)"
  by (subst collect.simps) simp

lemma collect_Loop_Nil: "collect g dist pred mx (Loop i suffix []) st = Some st"
  by (subst collect.simps) simp

lemma collect_Loop_Cons:
  "collect g dist pred mx (Loop i suffix (m # rest)) st =
   Option.bind (collect g dist pred mx (Call i m (Name g m # suffix)) st)
     (\<lambda>st'. collect g dist pred mx (Loop i suffix rest) st')"
  by (subst collect.simps) simp

lemma collect_Loop:
  assumes "\<And>m st. m \<in> set ms \<Longrightarrow>
      \<exists>st'. collect g dist pred mx (Call i m (Name g m # suffix)) st = Some st' \<and> extends mx G st st'"
  shows "\<exists>st'. collect g dist pred mx (Loop i suffix ms) st = Some st' \<and> extends mx G st st'"
  using assms
proof (induction ms arbitrary: st)
  case Nil
  show ?case by (simp add: collect_Loop_Nil extends_refl)
next
  case (Cons m rest)
  from Cons.prems[of m st] obtain st1 where
    1: "collect g dist pred mx (Call i m (Name g m # suffix)) st = Some st1" "extends mx G st st1"
    by auto
  have "\<exists>st'. collect g dist pred mx (Loop i suffix rest) st1 = Some st' \<and> extends mx G st1 st'"
    by (rule Cons.IH) (use Cons.prems in auto)
  then obtain st2 where
    2: "collect g dist pred mx (Loop i suffix rest) st1 = Some st2" "extends mx G st1 st2" by blast
  show ?case
    using 1 2 extends_trans[OF 1(2) 2(2)] by (simp add: collect_Loop_Cons)
qed

lemma shortest_names_step:
  assumes "is_path g m [] j" "dist ! i ! m + Weight g m j = dist ! i ! j"
  shows "shortest_names g dist i m (m # sfx) \<subseteq> shortest_names g dist i j sfx"
proof
  fix p assume "p \<in> shortest_names g dist i m (m # sfx)"
  then obtain zs where zs: "p = map (Name g) (i # zs @ m # sfx)" "is_path g i zs m"
    "path_weight g i zs m = dist ! i ! m" unfolding shortest_names_def by blast
  have "is_path g i (zs @ [m]) j" "path_weight g i (zs @ [m]) j = dist ! i ! j"
    "p = map (Name g) (i # (zs @ [m]) @ sfx)"
    using zs assms by (simp_all add: is_path_append path_weight_append)
  then show "p \<in> shortest_names g dist i j sfx" unfolding shortest_names_def by blast
qed

lemma collect_Call:
  assumes bg: "bounded_graph g" and inv: "level_inv g (NumNodes g) dist"
    and pred: "pred = build_pred g dist" and i: "i < NumNodes g"
  shows "j < NumNodes g \<Longrightarrow> i \<noteq> j \<Longrightarrow> dist ! i ! j \<noteq> Inf_int \<Longrightarrow>
     \<exists>st'. collect g dist pred mx (Call i j (map (Name g) sfx)) st = Some st' \<and>
           extends mx (shortest_names g dist i j sfx) st st'"
proof (induction "nat (dist ! i ! j)" arbitrary: j sfx st rule: less_induct)
  case less
  have vg: "valid_graph g" using bg by (simp add: bounded_graph_def)
  note j = \<open>j < NumNodes g\<close> and ij = \<open>i \<noteq> j\<close> and fin = \<open>dist ! i ! j \<noteq> Inf_int\<close>
  let ?G = "shortest_names g dist i j sfx" and ?suffix = "map (Name g) sfx"
  show ?case
  proof (cases "mx \<le> length (fst st)")
    case True
    then show ?thesis by (simp add: collect_Call_full extends_refl)
  next
    case False
    let ?st1 = "if Weight g i j > 0 \<and> Weight g i j = dist ! i ! j
                then add_path (Name g i # ?suffix) st else st"
    have e1: "extends mx ?G st ?st1"
    proof (cases "Weight g i j > 0 \<and> Weight g i j = dist ! i ! j")
      case True
      then have "is_path g i [] j \<and> path_weight g i [] j = dist ! i ! j" using i j by simp
      then have "Name g i # ?suffix \<in> ?G" unfolding shortest_names_def by force
      then show ?thesis using True False by (simp add: add_path_extends)
    next
      case False
      then show ?thesis by (auto simp: extends_refl)
    qed
    have pr: "pred ! i ! j = filter (is_pred g dist i j) [0..<NumNodes g]"
      using i j ij fin by (simp add: pred build_pred_nth pred_cell_def)
    have "\<exists>st'. collect g dist pred mx (Loop i ?suffix (pred ! i ! j)) ?st1 = Some st' \<and>
            extends mx ?G ?st1 st'"
    proof (rule collect_Loop)
      fix m st0 assume "m \<in> set (pred ! i ! j)"
      then have m: "m < NumNodes g" and ip: "is_pred g dist i j m" unfolding pr by simp_all
      from is_pred_final[OF bg inv i j m] ip have mi: "m \<noteq> i" and w: "Weight g m j > 0"
        and mf: "dist ! i ! m \<noteq> Inf_int" and eq: "dist ! i ! m + Weight g m j = dist ! i ! j"
        by simp_all
      have "0 \<le> dist ! i ! m" using final_entry_bound[OF vg inv i m mf] by simp
      then have lt: "nat (dist ! i ! m) < nat (dist ! i ! j)" using w eq by linarith
      from less.hyps[OF lt m _ mf, of "m # sfx" st0] mi
      obtain st' where st': "collect g dist pred mx (Call i m (map (Name g) (m # sfx))) st0 = Some st'"
        "extends mx (shortest_names g dist i m (m # sfx)) st0 st'" by auto
      have "shortest_names g dist i m (m # sfx) \<subseteq> ?G"
        using m j w eq by (intro shortest_names_step) simp_all
      from extends_mono[OF st'(2) this] st'(1)
      show "\<exists>st'. collect g dist pred mx (Call i m (Name g m # ?suffix)) st0 = Some st' \<and>
              extends mx ?G st0 st'" by simp
    qed
    then obtain st' where st': "collect g dist pred mx (Loop i ?suffix (pred ! i ! j)) ?st1 = Some st'"
      "extends mx ?G ?st1 st'" by blast
    from extends_trans[OF e1 st'(2)] st'(1) show ?thesis
      using False ij by (simp add: collect_Call_step)
  qed
qed


section \<open>RunFloyd: proofs\<close>

lemma pairs_snoc:
  "concat (map (\<lambda>i. map (\<lambda>j. (i, j)) [0..<N]) [0..<Suc M]) =
   concat (map (\<lambda>i. map (\<lambda>j. (i, j)) [0..<N]) [0..<M]) @ map (\<lambda>j. (M, j)) [0..<N]"
  by simp

lemma pairs_length: "length (concat (map (\<lambda>i. map (\<lambda>j. (i, j)) [0..<N]) [0..<M])) = M * N"
  by (induction M) simp_all

lemma pairs_nth:
  "i < M \<Longrightarrow> j < N \<Longrightarrow> concat (map (\<lambda>i. map (\<lambda>j. (i, j)) [0..<N]) [0..<M]) ! (i * N + j) = (i, j)"
proof (induction M)
  case 0
  then show ?case by simp
next
  case (Suc M)
  show ?case
  proof (cases "i < M")
    case True
    have "i * N + j < i * N + N" using Suc.prems(2) by simp
    also have "\<dots> = Suc i * N" by simp
    also have "\<dots> \<le> M * N" using True by (intro mult_le_mono1) simp
    finally have "i * N + j < M * N" .
    with Suc True show ?thesis unfolding pairs_snoc by (simp add: nth_append pairs_length)
  next
    case False
    with Suc.prems have "i = M" by simp
    then show ?thesis unfolding pairs_snoc using Suc.prems(2) by (simp add: nth_append pairs_length)
  qed
qed

lemma all_pairs_length: "length (all_pairs N) = N * N"
  and all_pairs_nth: "i < N \<Longrightarrow> j < N \<Longrightarrow> all_pairs N ! (i * N + j) = (i, j)"
  and all_pairs_set: "set (all_pairs N) = {..<N} \<times> {..<N}"
  unfolding all_pairs_def by (simp_all add: pairs_length pairs_nth) auto

lemma those_map_nth:
  assumes "\<And>x. x \<in> set xs \<Longrightarrow> \<exists>y. f x = Some y \<and> P x y"
  shows "\<exists>ys. those (map f xs) = Some ys \<and> length ys = length xs \<and> (\<forall>n < length xs. P (xs ! n) (ys ! n))"
  using assms
proof (induction xs)
  case Nil
  then show ?case by simp
next
  case (Cons x xs)
  from Cons.prems[of x] obtain y where y: "f x = Some y" "P x y" by auto
  from Cons.IH Cons.prems obtain ys where ys: "those (map f xs) = Some ys" "length ys = length xs"
    "\<forall>n < length xs. P (xs ! n) (ys ! n)" by auto
  have "\<forall>n < length (x # xs). P ((x # xs) ! n) ((y # ys) ! n)"
    using y(2) ys(3) by (auto simp: nth_Cons split: nat.splits)
  then show ?case using y(1) ys(1,2) by (intro exI[of _ "y # ys"]) simp
qed

lemma final_dist_level: "bounded_graph g \<Longrightarrow> level_inv g (NumNodes g) (final_dist g)"
  unfolding final_dist_def by (rule floyd_relax_level)

lemma enumeratePaths_ok:
  assumes bg: "bounded_graph g" and ij: "i < NumNodes g" "j < NumNodes g" "i \<noteq> j"
    and fin: "final_dist g ! i ! j \<noteq> Inf_int"
  shows "\<exists>ps. enumeratePaths g (final_dist g) (build_pred g (final_dist g)) i j mx = Some ps \<and>
           length ps \<le> mx \<and> distinct ps \<and> set ps \<subseteq> shortest_names g (final_dist g) i j [j]"
    and "\<exists>ps. enumeratePathsOnSub g (final_dist g) (build_pred g (final_dist g)) i j mx = Some ps \<and>
           length ps \<le> mx \<and> distinct ps \<and> set ps \<subseteq> shortest_names g (final_dist g) i j [j]"
proof -
  let ?st = "([], \<lambda>_. False) :: collector"
  from collect_Call[OF bg final_dist_level[OF bg] refl ij(1,2,3) fin, of mx "[j]" ?st]
  obtain st' where st': "collect g (final_dist g) (build_pred g (final_dist g)) mx (Call i j [Name g j]) ?st = Some st'"
    "extends mx (shortest_names g (final_dist g) i j [j]) ?st st'" by auto
  have "coll_inv ?st" by (simp add: coll_inv_def)
  with st'(2) have "length (fst st') \<le> mx" "distinct (fst st')"
    "set (fst st') \<subseteq> shortest_names g (final_dist g) i j [j]"
    unfolding extends_def coll_inv_def by auto
  with st'(1) ij(3) fin
  show "\<exists>ps. enumeratePaths g (final_dist g) (build_pred g (final_dist g)) i j mx = Some ps \<and>
           length ps \<le> mx \<and> distinct ps \<and> set ps \<subseteq> shortest_names g (final_dist g) i j [j]"
    and "\<exists>ps. enumeratePathsOnSub g (final_dist g) (build_pred g (final_dist g)) i j mx = Some ps \<and>
           length ps \<le> mx \<and> distinct ps \<and> set ps \<subseteq> shortest_names g (final_dist g) i j [j]"
    by (simp_all add: enumeratePaths_def enumeratePathsOnSub_def collectPaths_def)
qed

lemma pair_result_ok:
  assumes bg: "bounded_graph g" and ij: "i < NumNodes g" "j < NumNodes g"
  shows "\<exists>p. pair_result g (final_dist g) (build_pred g (final_dist g)) i j = Some p \<and> entry_ok g i j p"
proof (cases "final_dist g ! i ! j = Inf_int")
  case True
  then show ?thesis by (simp add: pair_result_def entry_ok_def)
next
  case False
  show ?thesis
  proof (cases "i = j")
    case True
    with False show ?thesis by (simp add: pair_result_def entry_ok_def enumeratePaths_def)
  next
    case ne: False
    from enumeratePaths_ok(1)[OF bg ij ne False, of MaxShortestPaths]
    obtain ps where "enumeratePaths g (final_dist g) (build_pred g (final_dist g)) i j MaxShortestPaths = Some ps"
      "length ps \<le> MaxShortestPaths" "distinct ps" "set ps \<subseteq> shortest_names g (final_dist g) i j [j]"
      by blast
    with False ne show ?thesis by (simp add: pair_result_def entry_ok_def)
  qed
qed

lemma RunFloyd_ok:
  assumes bg: "bounded_graph g"
  shows "\<exists>r. RunFloyd g = Some r \<and> r_g r = g \<and> length (Results r) = NumNodes g * NumNodes g \<and>
           (\<forall>i < NumNodes g. \<forall>j < NumNodes g. entry_ok g i j (Results r ! (i * NumNodes g + j)))"
proof -
  let ?N = "NumNodes g" and ?f = "\<lambda>(i, j). pair_result g (final_dist g) (build_pred g (final_dist g)) i j"
  have "\<exists>p. ?f x = Some p \<and> (case x of (i, j) \<Rightarrow> entry_ok g i j) p" if "x \<in> set (all_pairs ?N)" for x
    using that pair_result_ok[OF bg] by (auto simp: all_pairs_set)
  from those_map_nth[of "all_pairs ?N" ?f "\<lambda>x p. (case x of (i, j) \<Rightarrow> entry_ok g i j) p", OF this]
  obtain rs where rs: "those (map ?f (all_pairs ?N)) = Some rs" "length rs = ?N * ?N"
    "\<forall>n < ?N * ?N. (case all_pairs ?N ! n of (i, j) \<Rightarrow> entry_ok g i j) (rs ! n)"
    by (auto simp: all_pairs_length)
  have "entry_ok g i j (rs ! (i * ?N + j))" if "i < ?N" "j < ?N" for i j
  proof -
    have "i * ?N + j < ?N * ?N"
    proof -
      have "i * ?N + j < i * ?N + ?N" using that(2) by simp
      also have "\<dots> = Suc i * ?N" by simp
      also have "\<dots> \<le> ?N * ?N" using that(1) by (intro mult_le_mono1) simp
      finally show ?thesis .
    qed
    with rs(3) all_pairs_nth[OF that] show ?thesis by fastforce
  qed
  with rs(1,2) show ?thesis
    by (simp add: RunFloyd_def Let_def final_dist_def)
qed

lemma NewFromStruct_bounded:
  "NewFromStruct gj = Inr g \<Longrightarrow> NumNodes g < 2 ^ 32 \<Longrightarrow> bounded_graph g"
  by (simp add: bounded_graph_def NewFromStruct_valid(1))

lemma Name_inj:
  "valid_graph g \<Longrightarrow> a < NumNodes g \<Longrightarrow> b < NumNodes g \<Longrightarrow> Name g a = Name g b \<longleftrightarrow> a = b"
  by (auto simp: valid_graph_def Name_def NumNodes_def nth_eq_iff_index_eq)

lemma distinct_names:
  assumes "valid_graph g" "distinct xs" "\<forall>x \<in> set xs. x < NumNodes g"
  shows "distinct (map (Name g) xs)"
  using assms by (auto simp: distinct_map inj_on_def Name_inj)

lemma shortest_names_simple:
  assumes bg: "bounded_graph g" and ij: "i < NumNodes g" "j < NumNodes g" "i \<noteq> j"
    and fin: "final_dist g ! i ! j \<noteq> Inf_int"
    and q: "q \<in> shortest_names g (final_dist g) i j [j]"
  shows "distinct q \<and> (\<exists>xs. q = map (Name g) (i # xs @ [j]) \<and> simple_path g i xs j \<and>
           path_weight g i xs j = final_dist g ! i ! j)"
proof -
  have vg: "valid_graph g" using bg by (simp add: bounded_graph_def)
  from q obtain xs where xs: "q = map (Name g) (i # xs @ [j])" "is_path g i xs j"
    "path_weight g i xs j = final_dist g ! i ! j" unfolding shortest_names_def by blast
  have sh: "shortest g i j (final_dist g ! i ! j)"
    using level_inv_final(2)[OF vg final_dist_level[OF bg] ij fin] .
  have sp: "simple_path g i xs j" using shortest_is_simple[OF sh xs(2,3)] .
  then have "distinct (i # xs @ [j])" using ij(3) by (auto simp: simple_path_def)
  moreover have "\<forall>x \<in> set (i # xs @ [j]). x < NumNodes g"
    using is_path_nodes[OF xs(2)] by auto
  ultimately have "distinct q" unfolding xs(1) using vg by (intro distinct_names)
  with xs sp show ?thesis by blast
qed

text \<open>
  Claim C1. For a graph that \<open>NewFromStruct\<close> returns (with fewer than \<open>2^32\<close> nodes: the
  square matrices of a larger graph fit in no 64-bit address space), \<open>RunFloyd\<close> returns,
  with one entry for every ordered pair, in row order. The entry of \<open>(i, i)\<close> has distance
  0 and the one path \<open>[i]\<close>, whether or not the node has a self-loop edge. For \<open>i \<noteq> j\<close>
  the distance is the least weight of a directed path from \<open>i\<close> to \<open>j\<close> (the weight of
  some path, and at most the weight of every path) when there is one, and \<open>-1\<close> when
  there is none.
\<close>

theorem RunFloyd_distances:
  assumes "NewFromStruct gj = Inr g" and "NumNodes g < 2 ^ 32"
  shows "\<exists>r. RunFloyd g = Some r \<and> length (Results r) = NumNodes g * NumNodes g \<and>
     (\<forall>i < NumNodes g. \<forall>j < NumNodes g.
        From (pair_entry (Results r) (NumNodes g) i j) = Name g i \<and>
        To (pair_entry (Results r) (NumNodes g) i j) = Name g j \<and>
        (i = j \<longrightarrow> Distance (pair_entry (Results r) (NumNodes g) i j) = 0 \<and>
                  Paths (pair_entry (Results r) (NumNodes g) i j) = [[Name g i]]) \<and>
        (i \<noteq> j \<longrightarrow> reachable g i j \<longrightarrow>
           shortest g i j (Distance (pair_entry (Results r) (NumNodes g) i j))) \<and>
        (i \<noteq> j \<longrightarrow> \<not> reachable g i j \<longrightarrow>
           Distance (pair_entry (Results r) (NumNodes g) i j) = -1))"
proof -
  have bg: "bounded_graph g" using assms by (rule NewFromStruct_bounded)
  then have vg: "valid_graph g" by (simp add: bounded_graph_def)
  note lv = final_dist_level[OF bg]
  from RunFloyd_ok[OF bg] obtain r where r: "RunFloyd g = Some r"
    "length (Results r) = NumNodes g * NumNodes g"
    "\<And>i j. i < NumNodes g \<Longrightarrow> j < NumNodes g \<Longrightarrow> entry_ok g i j (pair_entry (Results r) (NumNodes g) i j)"
    unfolding pair_entry_def by blast
  have "From (pair_entry (Results r) (NumNodes g) i j) = Name g i \<and>
        To (pair_entry (Results r) (NumNodes g) i j) = Name g j \<and>
        (i = j \<longrightarrow> Distance (pair_entry (Results r) (NumNodes g) i j) = 0 \<and>
                  Paths (pair_entry (Results r) (NumNodes g) i j) = [[Name g i]]) \<and>
        (i \<noteq> j \<longrightarrow> reachable g i j \<longrightarrow>
           shortest g i j (Distance (pair_entry (Results r) (NumNodes g) i j))) \<and>
        (i \<noteq> j \<longrightarrow> \<not> reachable g i j \<longrightarrow>
           Distance (pair_entry (Results r) (NumNodes g) i j) = -1)"
    if ij: "i < NumNodes g" "j < NumNodes g" for i j
  proof (cases "i = j")
    case True
    have "final_dist g ! i ! i = 0" using lv ij(1) by (simp add: level_inv_def)
    then show ?thesis using r(3)[OF ij] True by (simp add: entry_ok_def Inf_int_def)
  next
    case False
    from level_inv_final[OF vg lv ij False]
    have 1: "final_dist g ! i ! j = Inf_int \<longleftrightarrow> \<not> reachable g i j"
      and 2: "final_dist g ! i ! j \<noteq> Inf_int \<Longrightarrow> shortest g i j (final_dist g ! i ! j)" by blast+
    show ?thesis
    proof (cases "final_dist g ! i ! j = Inf_int")
      case True
      then show ?thesis using r(3)[OF ij] 1 False by (simp add: entry_ok_def)
    next
      case fin: False
      then show ?thesis using r(3)[OF ij] 1 2 False by (simp add: entry_ok_def)
    qed
  qed
  with r(1,2) show ?thesis by blast
qed

text \<open>
  Claim C2. In the result of \<open>RunFloyd\<close> the path list of every pair has no two equal
  entries, and every entry is the name sequence of a simple path from \<open>i\<close> to \<open>j\<close> (no
  name occurs twice) whose weight is the distance of the pair, which is the least weight
  of a path from \<open>i\<close> to \<open>j\<close>. (For \<open>i = j\<close> the one path is \<open>[i]\<close>, of weight 0; an
  unreachable pair has no path.)
\<close>

theorem RunFloyd_paths:
  assumes "NewFromStruct gj = Inr g" and "NumNodes g < 2 ^ 32"
  shows "\<exists>r. RunFloyd g = Some r \<and>
     (\<forall>i < NumNodes g. \<forall>j < NumNodes g.
        distinct (Paths (pair_entry (Results r) (NumNodes g) i j)) \<and>
        (\<forall>q \<in> set (Paths (pair_entry (Results r) (NumNodes g) i j)).
           distinct q \<and>
           (if i = j then q = [Name g i] \<and> Distance (pair_entry (Results r) (NumNodes g) i j) = 0
            else \<exists>xs. q = map (Name g) (i # xs @ [j]) \<and> simple_path g i xs j \<and>
                   path_weight g i xs j = Distance (pair_entry (Results r) (NumNodes g) i j) \<and>
                   shortest g i j (path_weight g i xs j))))"
proof -
  have bg: "bounded_graph g" using assms by (rule NewFromStruct_bounded)
  then have vg: "valid_graph g" by (simp add: bounded_graph_def)
  note lv = final_dist_level[OF bg]
  from RunFloyd_ok[OF bg] obtain r where r: "RunFloyd g = Some r"
    "\<And>i j. i < NumNodes g \<Longrightarrow> j < NumNodes g \<Longrightarrow> entry_ok g i j (pair_entry (Results r) (NumNodes g) i j)"
    unfolding pair_entry_def by blast
  have "distinct (Paths (pair_entry (Results r) (NumNodes g) i j)) \<and>
        (\<forall>q \<in> set (Paths (pair_entry (Results r) (NumNodes g) i j)).
           distinct q \<and>
           (if i = j then q = [Name g i] \<and> Distance (pair_entry (Results r) (NumNodes g) i j) = 0
            else \<exists>xs. q = map (Name g) (i # xs @ [j]) \<and> simple_path g i xs j \<and>
                   path_weight g i xs j = Distance (pair_entry (Results r) (NumNodes g) i j) \<and>
                   shortest g i j (path_weight g i xs j)))"
    if ij: "i < NumNodes g" "j < NumNodes g" for i j
  proof -
    let ?p = "pair_entry (Results r) (NumNodes g) i j"
    note ok = r(2)[OF ij]
    show ?thesis
    proof (cases "final_dist g ! i ! j = Inf_int")
      case True
      then show ?thesis using ok by (simp add: entry_ok_def)
    next
      case fin: False
      show ?thesis
      proof (cases "i = j")
        case True
        have "final_dist g ! i ! i = 0" using lv ij(1) by (simp add: level_inv_def)
        then show ?thesis using ok True fin by (simp add: entry_ok_def)
      next
        case False
        from ok fin False have d: "Distance ?p = final_dist g ! i ! j" and dp: "distinct (Paths ?p)"
          and sub: "set (Paths ?p) \<subseteq> shortest_names g (final_dist g) i j [j]"
          by (simp_all add: entry_ok_def)
        have sh: "shortest g i j (final_dist g ! i ! j)"
          using level_inv_final(2)[OF vg lv ij False fin] .
        have "distinct q \<and> (\<exists>xs. q = map (Name g) (i # xs @ [j]) \<and> simple_path g i xs j \<and>
                   path_weight g i xs j = Distance ?p \<and> shortest g i j (path_weight g i xs j))"
          if "q \<in> set (Paths ?p)" for q
        proof -
          from that sub have "q \<in> shortest_names g (final_dist g) i j [j]" by blast
          from shortest_names_simple[OF bg ij False fin this] sh d show ?thesis by metis
        qed
        with dp False show ?thesis by simp
      qed
    qed
  qed
  with r(1) show ?thesis by blast
qed

lemma scenario_A_graph: "NewFromStruct scenario_A = Inr graph_A"
  by (simp add: NewFromStruct_def scenario_A_def graph_A_def collect_nodes_def add_node_def
      build_adj_def set_cell_def lookup_idx_def build_index_def MinWeight_def MaxWeight_def Let_def)

lemma graph_A_small: "NumNodes graph_A < 2 ^ 32"
  by (simp add: NumNodes_def graph_A_def)

theorem RunFloyd_distances_witness:
  "NewFromStruct scenario_A = Inr graph_A \<and> NumNodes graph_A < 2 ^ 32 \<and>
   (\<exists>r. RunFloyd graph_A = Some r \<and> length (Results r) = 9 \<and>
      Distance (pair_entry (Results r) 3 1 1) = 0 \<and>
      Paths (pair_entry (Results r) 3 1 1) = [[''B'']] \<and>
      shortest graph_A 0 2 (Distance (pair_entry (Results r) 3 0 2)) \<and>
      Distance (pair_entry (Results r) 3 2 0) = -1)"
proof -
  have n: "NumNodes graph_A = 3" by (simp add: NumNodes_def graph_A_def)
  have nm: "Name graph_A 1 = ''B''" by (simp add: Name_def graph_A_def)
  have "is_path graph_A 0 [] 2" unfolding is_path.simps n by (simp add: Weight_def graph_A_def)
  then have r02: "reachable graph_A 0 2" unfolding reachable_def by blast
  have out: "\<not> Weight graph_A 2 x > 0" if "x < 3" for x
    using that by (auto simp: Weight_def graph_A_def less_Suc_eq numeral_3_eq_3)
  have "\<not> is_path graph_A 2 xs 0" for xs
  proof (cases xs)
    case Nil
    then show ?thesis using out[of 0] by simp
  next
    case (Cons x ys)
    show ?thesis
    proof
      assume p: "is_path graph_A 2 xs 0"
      then have "x < 3" using is_path_nodes[OF p] n Cons by simp
      with p Cons out[of x] show False by simp
    qed
  qed
  then have r20: "\<not> reachable graph_A 2 0" unfolding reachable_def by blast
  from RunFloyd_distances[OF scenario_A_graph graph_A_small] obtain r where
    r: "RunFloyd graph_A = Some r" "length (Results r) = 9"
    and all: "\<And>i j. i < 3 \<Longrightarrow> j < 3 \<Longrightarrow>
        (i = j \<longrightarrow> Distance (pair_entry (Results r) 3 i j) = 0 \<and>
                  Paths (pair_entry (Results r) 3 i j) = [[Name graph_A i]]) \<and>
        (i \<noteq> j \<longrightarrow> reachable graph_A i j \<longrightarrow>
           shortest graph_A i j (Distance (pair_entry (Results r) 3 i j))) \<and>
        (i \<noteq> j \<longrightarrow> \<not> reachable graph_A i j \<longrightarrow>
           Distance (pair_entry (Results r) 3 i j) = -1)"
    unfolding n by auto
  from all[of 1 1] all[of 0 2] all[of 2 0] r02 r20 nm r
  show ?thesis using scenario_A_graph graph_A_small by auto
qed

theorem RunFloyd_paths_witness:
  "NewFromStruct scenario_A = Inr graph_A \<and> NumNodes graph_A < 2 ^ 32 \<and>
   (\<exists>r. RunFloyd graph_A = Some r \<and>
      Paths (pair_entry (Results r) 3 0 2) = [[''A'', ''B'', ''C'']] \<and>
      distinct (Paths (pair_entry (Results r) 3 0 2)) \<and>
      (\<exists>xs. [''A'', ''B'', ''C''] = map (Name graph_A) (0 # xs @ [2]) \<and> simple_path graph_A 0 xs 2 \<and>
            path_weight graph_A 0 xs 2 = Distance (pair_entry (Results r) 3 0 2) \<and>
            shortest graph_A 0 2 (path_weight graph_A 0 xs 2)))"
proof -
  have n: "NumNodes graph_A = 3" by (simp add: NumNodes_def graph_A_def)
  have ev: "map_option (\<lambda>r. Paths (pair_entry (Results r) 3 0 2)) (RunFloyd graph_A) = Some [[''A'', ''B'', ''C'']]"
    by code_simp
  from RunFloyd_paths[OF scenario_A_graph graph_A_small] obtain r where
    r: "RunFloyd graph_A = Some r"
    and all: "\<And>i j. i < 3 \<Longrightarrow> j < 3 \<Longrightarrow>
        distinct (Paths (pair_entry (Results r) 3 i j)) \<and>
        (\<forall>q \<in> set (Paths (pair_entry (Results r) 3 i j)).
           distinct q \<and>
           (if i = j then q = [Name graph_A i] \<and> Distance (pair_entry (Results r) 3 i j) = 0
            else \<exists>xs. q = map (Name graph_A) (i # xs @ [j]) \<and> simple_path graph_A i xs j \<and>
                   path_weight graph_A i xs j = Distance (pair_entry (Results r) 3 i j) \<and>
                   shortest graph_A i j (path_weight graph_A i xs j)))"
    unfolding n by auto
  from ev r have p: "Paths (pair_entry (Results r) 3 0 2) = [[''A'', ''B'', ''C'']]" by simp
  from all[of 0 2] p r show ?thesis using scenario_A_graph graph_A_small by auto
qed


section \<open>Scenario A\<close>

text \<open>
  Claim C3, as amended. On Scenario A the distances are 50 for \<open>(A, B)\<close>, 80 for
  \<open>(B, A)\<close> and 70 for \<open>(A, C)\<close>, and \<open>Paths\<close> of \<open>(A, C)\<close> holds the one shortest
  path \<open>A B C\<close>. The direct path \<open>A C\<close> of weight 100 is not a shortest path and is no
  entry of \<open>Paths\<close>; after \<open>FillViaNeighborPaths\<close> it is the second entry of
  \<open>ViaNeighborPaths\<close> of \<open>(A, C)\<close>, behind \<open>A B C\<close> of weight 70.
\<close>

theorem RunFloyd_scenario_A:
  "(case NewFromStruct scenario_A of
      Inl err \<Rightarrow> None
    | Inr g \<Rightarrow> map_option (map (\<lambda>r. (From r, To r, Distance r, Paths r)) \<circ> Results) (RunFloyd g)) =
   Some [(''A'', ''A'', 0, [[''A'']]), (''A'', ''B'', 50, [[''A'', ''B'']]),
         (''A'', ''C'', 70, [[''A'', ''B'', ''C'']]),
         (''B'', ''A'', 80, [[''B'', ''A'']]), (''B'', ''B'', 0, [[''B'']]),
         (''B'', ''C'', 20, [[''B'', ''C'']]),
         (''C'', ''A'', -1, []), (''C'', ''B'', -1, []), (''C'', ''C'', 0, [[''C'']])] \<and>
   (case NewFromStruct scenario_A of
      Inl err \<Rightarrow> None
    | Inr g \<Rightarrow> Option.bind (run_all g)
        (\<lambda>rs. map_option ViaNeighborPaths (findResult rs ''A'' ''C''))) =
   Some [\<lparr>Path = [''A'', ''B'', ''C''], pdDistance = 70\<rparr>,
         \<lparr>Path = [''A'', ''C''], pdDistance = 100\<rparr>]"
  by code_simp

text \<open>
  The claim as written asks for a second path \<open>A C\<close> in the path list of \<open>(A, C)\<close>:
  the list has one entry.
\<close>

theorem scenario_A_second_path_counterexample:
  "(case NewFromStruct scenario_A of
      Inl err \<Rightarrow> None
    | Inr g \<Rightarrow> Option.bind (RunFloyd g)
        (\<lambda>r. map_option Paths (findResult (Results r) ''A'' ''C''))) =
   Some [[''A'', ''B'', ''C'']]"
  by code_simp

end
